theory Spec2Isabelle
  imports Main "HOL-Library.AList"
begin

section \<open>Data model\<close>

text \<open>
  The three components of \<^verbatim>\<open>core/parser\<close> are embedded: \<^verbatim>\<open>DependencyMapper\<close>
  (dependency_mapper.py), \<^verbatim>\<open>SymbolTable\<close> (symbol_table.py) and \<^verbatim>\<open>CPreprocessor\<close>
  (c_preprocessor.py).

  A Python \<^verbatim>\<open>dict\<close> is an association list in insertion order: a new key goes to the
  end, an existing key keeps its place (\<open>AList.update\<close>). A Python \<^verbatim>\<open>set\<close> that the
  code iterates over is a list without duplicates; Python leaves the iteration order of
  a set open, and every theorem below about an iteration holds for any order of these
  lists. A set that is only tested for membership is a HOL set. Strings are lists of
  8-bit code points. A Python exception is the \<open>Inl\<close> branch of a sum.
\<close>

type_synonym path = string

datatype error = KeyError string | UnboundLocalError string | ReError string | RecursionError

datatype log_entry = LogError string | LogWarning string

definition dict_get :: "('k \<times> 'v list) list \<Rightarrow> 'k \<Rightarrow> 'v list" where
  \<comment> \<open>\<^verbatim>\<open>d.get(k, set())\<close>: never inserts the key\<close>
  "dict_get d k = (case map_of d k of None \<Rightarrow> [] | Some v \<Rightarrow> v)"

definition set_add :: "'a \<Rightarrow> 'a list \<Rightarrow> 'a list" where
  "set_add x xs = (if x \<in> set xs then xs else xs @ [x])"

definition dict_add :: "('k \<times> 'v list) list \<Rightarrow> 'k \<Rightarrow> 'v \<Rightarrow> ('k \<times> 'v list) list" where
  \<comment> \<open>\<^verbatim>\<open>d[k].add(x)\<close> on a \<^verbatim>\<open>defaultdict(set)\<close>: creates the key when it is missing\<close>
  "dict_add d k x = AList.update k (set_add x (dict_get d k)) d"

section \<open>DependencyMapper\<close>

text \<open>
  \<^verbatim>\<open>str(Path(p).resolve())\<close> depends on the working directory and on the links of the
  file system; it is the parameter \<open>resolve\<close> of the operations.
\<close>

type_synonym graph = "(path \<times> path list) list"

record dependency_mapper =
  dependencies :: graph
  reverse_dependencies :: graph
  file_symbols :: "(path \<times> string list) list"
  symbol_files :: "(string \<times> path list) list"

definition new_mapper :: dependency_mapper where
  "new_mapper = \<lparr>dependencies = [], reverse_dependencies = [], file_symbols = [], symbol_files = []\<rparr>"

definition add_file_dependency ::
  "(path \<Rightarrow> path) \<Rightarrow> path \<Rightarrow> path \<Rightarrow> dependency_mapper \<Rightarrow> dependency_mapper" where
  "add_file_dependency resolve source_file target_file m =
     (let source = resolve source_file;
          target = resolve target_file
      in if source \<noteq> target then
           m\<lparr>dependencies := dict_add (dependencies m) source target,
             reverse_dependencies := dict_add (reverse_dependencies m) target source\<rparr>
         else m)"

definition add_symbol_definition ::
  "(path \<Rightarrow> path) \<Rightarrow> path \<Rightarrow> string \<Rightarrow> dependency_mapper \<Rightarrow> dependency_mapper" where
  "add_symbol_definition resolve file_path symbol_name m =
     (let resolved = resolve file_path
      in m\<lparr>file_symbols := dict_add (file_symbols m) resolved symbol_name,
           symbol_files := dict_add (symbol_files m) symbol_name resolved\<rparr>)"

definition add_symbol_reference ::
  "(path \<Rightarrow> path) \<Rightarrow> path \<Rightarrow> string \<Rightarrow> dependency_mapper \<Rightarrow> dependency_mapper" where
  "add_symbol_reference resolve file_path symbol_name m =
     (let resolved = resolve file_path;
          defining_files = dict_get (symbol_files m) symbol_name
      in fold (\<lambda>def_file. add_file_dependency resolve resolved def_file) defining_files m)"

definition get_file_dependencies :: "(path \<Rightarrow> path) \<Rightarrow> dependency_mapper \<Rightarrow> path \<Rightarrow> path list" where
  "get_file_dependencies resolve m file_path = dict_get (dependencies m) (resolve file_path)"

definition get_file_dependents :: "(path \<Rightarrow> path) \<Rightarrow> dependency_mapper \<Rightarrow> path \<Rightarrow> path list" where
  "get_file_dependents resolve m file_path = dict_get (reverse_dependencies m) (resolve file_path)"

datatype mapper_op =
    AddFileDependency path path
  | AddSymbolDefinition path string
  | AddSymbolReference path string

fun apply_op :: "(path \<Rightarrow> path) \<Rightarrow> dependency_mapper \<Rightarrow> mapper_op \<Rightarrow> dependency_mapper" where
  "apply_op resolve m (AddFileDependency s t) = add_file_dependency resolve s t m"
| "apply_op resolve m (AddSymbolDefinition f n) = add_symbol_definition resolve f n m"
| "apply_op resolve m (AddSymbolReference f n) = add_symbol_reference resolve f n m"

definition run_ops :: "(path \<Rightarrow> path) \<Rightarrow> mapper_op list \<Rightarrow> dependency_mapper" where
  \<comment> \<open>a freshly constructed mapper after a sequence of calls\<close>
  "run_ops resolve ops = foldl (apply_op resolve) new_mapper ops"

subsection \<open>get_dependency_order\<close>













text \<open>
  The invariant of the two adjacency mappings, and the fact that every stored edge joins
  canonical paths.
\<close>

definition graph_invariant :: "dependency_mapper \<Rightarrow> bool" where
  "graph_invariant m \<longleftrightarrow>
     (\<forall>source target. target \<in> set (dict_get (dependencies m) source)
          \<longleftrightarrow> source \<in> set (dict_get (reverse_dependencies m) target)) \<and>
     (\<forall>f. f \<notin> set (dict_get (dependencies m) f))"

definition canonical_edges :: "(path \<Rightarrow> path) \<Rightarrow> dependency_mapper \<Rightarrow> bool" where
  "canonical_edges resolve m \<longleftrightarrow>
     (\<forall>s t. t \<in> set (dict_get (dependencies m) s) \<longrightarrow> s \<in> range resolve \<and> t \<in> range resolve)"

section \<open>SymbolTable\<close>

text \<open>
  \<^verbatim>\<open>Symbol\<close> and \<^verbatim>\<open>SymbolTable\<close> of symbol_table.py. The table is a dict keyed by the
  symbol's name alone; the warnings given to the logger are kept in \<open>table_log\<close>.
\<close>

record symbol =
  name :: string
  kind :: string
  type_info :: string
  scope :: string
  references :: "string set"

record symbol_table =
  symbols :: "(string \<times> symbol) list"
  table_log :: "log_entry list"

definition new_symbol_table :: symbol_table where
  "new_symbol_table = \<lparr>symbols = [], table_log = []\<rparr>"

definition add_symbol :: "symbol \<Rightarrow> symbol_table \<Rightarrow> symbol_table" where
  "add_symbol symbol st =
     (if name symbol \<in> set (map fst (symbols st)) then
        st\<lparr>table_log := table_log st @
              [LogWarning (''Symbol '' @ name symbol @ '' already exists in table'')]\<rparr>
      else st\<lparr>symbols := AList.update (name symbol) symbol (symbols st)\<rparr>)"

definition get_symbol :: "symbol_table \<Rightarrow> string \<Rightarrow> symbol option" where
  "get_symbol st n = map_of (symbols st) n"

section \<open>CPreprocessor\<close>

subsection \<open>Strings and lines\<close>

text \<open>
  \<open>is_space\<close> is the whitespace of \<^verbatim>\<open>str.strip()\<close> and of the regular expression class
  \<^verbatim>\<open>\s\<close>, for code points below 256. \<open>split_lines\<close> is \<^verbatim>\<open>source.split('\n')\<close>
  and \<open>join_lines\<close> is \<^verbatim>\<open>'\n'.join(lines)\<close>.
\<close>

definition is_space :: "char \<Rightarrow> bool" where
  "is_space c = (of_char c \<in> {9::nat, 10, 11, 12, 13, 28, 29, 30, 31, 32, 133, 160})"

definition strip :: "string \<Rightarrow> string" where
  "strip s = rev (dropWhile is_space (rev (dropWhile is_space s)))"

definition startswith :: "string \<Rightarrow> string \<Rightarrow> bool" where
  "startswith s p = (take (length p) s = p)"

fun split_lines :: "string \<Rightarrow> string list" where
  "split_lines [] = [[]]"
| "split_lines (c # cs) =
     (if c = CHR 0x0A then [] # split_lines cs
      else (case split_lines cs of [] \<Rightarrow> [[c]] | l # ls \<Rightarrow> (c # l) # ls))"

fun join_lines :: "string list \<Rightarrow> string" where
  "join_lines [] = []"
| "join_lines [l] = l"
| "join_lines (l # ls) = l @ CHR 0x0A # join_lines ls"

subsection \<open>Conditional compilation\<close>

text \<open>
  \<open>conditionals_loop\<close> is the \<^verbatim>\<open>for line in lines\<close> loop of
  \<^verbatim>\<open>_process_conditionals\<close>, started with \<^verbatim>\<open>skip_until_endif = False\<close>; its result
  is \<^verbatim>\<open>processed_lines\<close>.
\<close>

fun conditionals_loop :: "bool \<Rightarrow> string list \<Rightarrow> string list" where
  "conditionals_loop skip_until_endif [] = []"
| "conditionals_loop skip_until_endif (line # lines) =
     (if skip_until_endif then
        (if startswith (strip line) ''#endif'' then conditionals_loop False lines
         else conditionals_loop True lines)
      else if startswith (strip line) ''#if'' \<or> startswith (strip line) ''#ifdef''
              \<or> startswith (strip line) ''#ifndef'' then conditionals_loop True lines
      else line # conditionals_loop False lines)"

definition process_conditionals :: "string \<Rightarrow> string" where
  "process_conditionals source = join_lines (conditionals_loop False (split_lines source))"

text \<open>
  The specification's description of the same pass: a line begins with a directive when,
  stripped of the whitespace around it, it starts with the directive's text.
  \<open>discard_regions\<close> copies the lines in front of the first line that begins with
  \<^verbatim>\<open>#if\<close>, \<^verbatim>\<open>#ifdef\<close> or \<^verbatim>\<open>#ifndef\<close>, drops that line and every line up to and
  including the first later line that begins with \<^verbatim>\<open>#endif\<close>, and goes on in the same
  way with what follows.
\<close>

definition begins_if :: "string \<Rightarrow> bool" where
  "begins_if line \<longleftrightarrow> startswith (strip line) ''#if'' \<or> startswith (strip line) ''#ifdef''
     \<or> startswith (strip line) ''#ifndef''"

definition begins_endif :: "string \<Rightarrow> bool" where
  "begins_endif line \<longleftrightarrow> startswith (strip line) ''#endif''"

function discard_regions :: "string list \<Rightarrow> string list" where
  "discard_regions lines =
     (case dropWhile (\<lambda>l. \<not> begins_if l) lines of
        [] \<Rightarrow> lines
      | directive # after \<Rightarrow>
          takeWhile (\<lambda>l. \<not> begins_if l) lines @
          discard_regions (drop 1 (dropWhile (\<lambda>l. \<not> begins_endif l) after)))"
  by pat_completeness auto
termination
proof (relation "measure length", goal_cases)
  case 1
  show ?case by simp
next
  case (2 lines directive after)
  have "length (dropWhile (\<lambda>l. \<not> begins_endif l) after) \<le> length after"
    by (rule length_dropWhile_le)
  moreover have "length (dropWhile (\<lambda>l. \<not> begins_if l) lines) \<le> length lines"
    by (rule length_dropWhile_le)
  ultimately show ?case using 2 by simp
qed

declare discard_regions.simps [simp del]

subsection \<open>Macro expansion\<close>

text \<open>
  \<^verbatim>\<open>re.sub(r'\b' + re.escape(macro_name) + r'\b', macro_value, source)\<close>. The pattern is
  the literal name between two word boundaries. \<open>is_word_char\<close> is the class \<^verbatim>\<open>\w\<close> of a
  \<^verbatim>\<open>str\<close> pattern for code points below 256; \<open>word_boundary prev rest\<close> is \<^verbatim>\<open>\b\<close> at a
  position with the character \<open>prev\<close> in front of it and the text \<open>rest\<close> after it.
  \<open>sub_word\<close> replaces the leftmost non-overlapping matches, scanning once from left
  to right; the replacement is not scanned.
\<close>

definition is_word_char :: "char \<Rightarrow> bool" where
  "is_word_char c =
     (let n = (of_char c :: nat)
      in (48 \<le> n \<and> n \<le> 57) \<or> (65 \<le> n \<and> n \<le> 90) \<or> n = 95 \<or> (97 \<le> n \<and> n \<le> 122) \<or>
         n \<in> {170, 178, 179, 181, 185, 186, 188, 189, 190} \<or>
         (192 \<le> n \<and> n \<le> 214) \<or> (216 \<le> n \<and> n \<le> 246) \<or> (248 \<le> n \<and> n \<le> 255))"

definition word_boundary :: "char option \<Rightarrow> string \<Rightarrow> bool" where
  "word_boundary prev rest =
     ((case prev of None \<Rightarrow> False | Some c \<Rightarrow> is_word_char c) \<noteq>
      (case rest of [] \<Rightarrow> False | c # _ \<Rightarrow> is_word_char c))"

function sub_word :: "string \<Rightarrow> string \<Rightarrow> char option \<Rightarrow> string \<Rightarrow> string" where
  "sub_word word repl prev text =
     (if word = [] then
        (if word_boundary prev text then repl else []) @
        (case text of [] \<Rightarrow> [] | c # cs \<Rightarrow> c # sub_word word repl (Some c) cs)
      else if word_boundary prev text \<and> startswith text word \<and>
              word_boundary (Some (last word)) (drop (length word) text) then
        repl @ sub_word word repl (Some (last word)) (drop (length word) text)
      else (case text of [] \<Rightarrow> [] | c # cs \<Rightarrow> c # sub_word word repl (Some c) cs))"
  by pat_completeness auto
termination sub_word
proof (relation "measure (\<lambda>(word, repl, prev, source). length source)", goal_cases)
  case (3 word repl prev source)
  then have "take (length word) source = word" by (simp add: startswith_def)
  then have "length word \<le> length source" by (metis length_take min.cobounded1)
  with 3 show ?case by (cases word) auto
qed auto


text \<open>
  The file system and the library functions that the preprocessor calls are parameters:
  \<open>file_at\<close> says what \<^verbatim>\<open>open\<close> and \<^verbatim>\<open>Path.exists\<close> find at a path, \<open>path_join\<close> is
  \<^verbatim>\<open>str(Path(include_dir) / include_path)\<close>, and \<open>re_template name value\<close> is what
  \<^verbatim>\<open>re.sub\<close> makes of a replacement string that holds a backslash (an escape such as
  \<^verbatim>\<open>\n\<close> is replaced, a bad escape raises \<^verbatim>\<open>re.error\<close>). A replacement string with no
  backslash is used as it is.
\<close>

datatype file_state = Missing | Unreadable | Readable string

record environment =
  file_at :: "string \<Rightarrow> file_state"
  path_join :: "string \<Rightarrow> string \<Rightarrow> string"
  re_template :: "string \<Rightarrow> string \<Rightarrow> error + string"

record preprocessor =
  macros :: "(string \<times> string) list"
  include_paths :: "string list"
  processed_includes :: "string set"
  logged :: "log_entry list"


definition new_preprocessor :: "log_entry list \<Rightarrow> preprocessor" where
  \<comment> \<open>\<^verbatim>\<open>__init__\<close>; the logger is the module's, shared by all instances\<close>
  "new_preprocessor lg = \<lparr>macros = [], include_paths = [], processed_includes = {}, logged = lg\<rparr>"

definition add_include_path :: "string \<Rightarrow> preprocessor \<Rightarrow> preprocessor" where
  "add_include_path p pp =
     (if p \<notin> set (include_paths pp) then pp\<lparr>include_paths := include_paths pp @ [p]\<rparr> else pp)"

definition define_macro :: "string \<Rightarrow> string \<Rightarrow> preprocessor \<Rightarrow> preprocessor" where
  "define_macro macro_name macro_value pp =
     pp\<lparr>macros := AList.update macro_name macro_value (macros pp)\<rparr>"

definition reset :: "preprocessor \<Rightarrow> preprocessor" where
  "reset pp = pp\<lparr>macros := [], include_paths := [], processed_includes := {}\<rparr>"

definition re_sub_macro :: "environment \<Rightarrow> string \<Rightarrow> string \<Rightarrow> string \<Rightarrow> error + string" where
  "re_sub_macro env macro_name macro_value source =
     (if CHR 0x5C \<in> set macro_value then
        (case re_template env macro_name macro_value of
           Inl e \<Rightarrow> Inl e
         | Inr repl \<Rightarrow> Inr (sub_word macro_name repl None source))
      else Inr (sub_word macro_name macro_value None source))"

fun expand_macros :: "environment \<Rightarrow> (string \<times> string) list \<Rightarrow> string \<Rightarrow> error + string" where
  "expand_macros env [] source = Inr source"
| "expand_macros env ((macro_name, macro_value) # rest) source =
     (case re_sub_macro env macro_name macro_value source of
        Inl e \<Rightarrow> Inl e
      | Inr source' \<Rightarrow> expand_macros env rest source')"

subsection \<open>Include expansion and the pipeline\<close>

text \<open>
  \<open>match_include\<close> matches \<^verbatim>\<open>#include\s*[<"]([^>"]+)[>"]\<close> at the start of a text and
  gives group 1 and the length of the match. \<open>include_segments\<close> cuts a text into the
  matches that \<^verbatim>\<open>re.sub\<close> finds, left to right, and the characters between them.

  \<open>replace_include\<close> is the callback of \<^verbatim>\<open>_process_includes\<close>, \<open>search_include\<close> its
  loop over \<^verbatim>\<open>self.include_paths\<close>, \<open>sub_includes\<close> the substitution of the callback's
  results, and \<open>process_source\<close> the pipeline. An included file is processed by a
  recursive call; \<open>fuel\<close> bounds the depth of these calls, and \<open>None\<close> is a run that
  needs more. An exception raised while an included file is processed is caught by the
  callback, which logs a warning and goes on with the next directory. A log entry keeps
  the message without the text of the exception.
\<close>

definition match_include :: "string \<Rightarrow> (string \<times> nat) option" where
  "match_include source =
     (if startswith source ''#include'' then
        (let spaces = takeWhile is_space (drop 8 source)
         in case dropWhile is_space (drop 8 source) of
              [] \<Rightarrow> None
            | c # r \<Rightarrow>
                if c = CHR ''<'' \<or> c = CHR 0x22 then
                  (let spec = takeWhile (\<lambda>c. c \<noteq> CHR ''>'' \<and> c \<noteq> CHR 0x22) r
                   in if spec \<noteq> [] \<and> length spec < length r
                      then Some (spec, 8 + length spaces + 1 + length spec + 1)
                      else None)
                else None)
      else None)"

datatype segment = Chr char | Directive string string

lemma match_include_pos: "match_include source = Some (spec, n) \<Longrightarrow> 0 < n"
  by (auto simp: match_include_def Let_def split: if_splits list.splits)

function include_segments :: "string \<Rightarrow> segment list" where
  "include_segments [] = []"
| "include_segments (c # cs) =
     (case match_include (c # cs) of
        None \<Rightarrow> Chr c # include_segments cs
      | Some (spec, n) \<Rightarrow> Directive spec (take n (c # cs)) # include_segments (drop n (c # cs)))"
  by pat_completeness auto
termination include_segments
  by (relation "measure length") (auto dest: match_include_pos)

function (sequential) process_source ::
    "nat \<Rightarrow> environment \<Rightarrow> preprocessor \<Rightarrow> string \<Rightarrow> string \<Rightarrow> (preprocessor \<times> (error + string)) option"
  and sub_includes ::
    "nat \<Rightarrow> environment \<Rightarrow> preprocessor \<Rightarrow> segment list \<Rightarrow> (preprocessor \<times> string) option"
  and replace_include ::
    "nat \<Rightarrow> environment \<Rightarrow> preprocessor \<Rightarrow> string \<Rightarrow> string \<Rightarrow> (preprocessor \<times> string) option"
  and search_include ::
    "nat \<Rightarrow> environment \<Rightarrow> preprocessor \<Rightarrow> string \<Rightarrow> string \<Rightarrow> string list \<Rightarrow> (preprocessor \<times> string) option"
where
  "process_source fuel env pp source current_file =
     (case sub_includes fuel env pp (include_segments source) of
        None \<Rightarrow> None
      | Some (pp', source') \<Rightarrow>
          (case expand_macros env (macros pp') source' of
             Inl e \<Rightarrow> Some (pp', Inl e)
           | Inr source'' \<Rightarrow> Some (pp', Inr (process_conditionals source''))))"
| "sub_includes fuel env pp [] = Some (pp, [])"
| "sub_includes fuel env pp (Chr c # segs) =
     (case sub_includes fuel env pp segs of
        None \<Rightarrow> None
      | Some (pp', out) \<Rightarrow> Some (pp', c # out))"
| "sub_includes fuel env pp (Directive include_path whole # segs) =
     (case replace_include fuel env pp include_path whole of
        None \<Rightarrow> None
      | Some (pp', r) \<Rightarrow>
          (case sub_includes fuel env pp' segs of
             None \<Rightarrow> None
           | Some (pp'', out) \<Rightarrow> Some (pp'', r @ out)))"
| "replace_include fuel env pp include_path whole =
     (if include_path \<in> processed_includes pp then Some (pp, [])
      else search_include fuel env
             (pp\<lparr>processed_includes := insert include_path (processed_includes pp)\<rparr>)
             include_path whole (include_paths pp))"
| "search_include fuel env pp include_path whole [] =
     Some (pp\<lparr>logged := logged pp @ [LogWarning (''Could not find include file: '' @ include_path)]\<rparr>,
           whole)"
| "search_include fuel env pp include_path whole (include_dir # dirs) =
     (case file_at env (path_join env include_dir include_path) of
        Missing \<Rightarrow> search_include fuel env pp include_path whole dirs
      | Unreadable \<Rightarrow>
          search_include fuel env
            (pp\<lparr>logged := logged pp @ [LogWarning (''Error processing include '' @ include_path)]\<rparr>)
            include_path whole dirs
      | Readable included_content \<Rightarrow>
          (case fuel of
             0 \<Rightarrow> None
           | Suc fuel' \<Rightarrow>
               (case process_source fuel' env pp included_content
                       (path_join env include_dir include_path) of
                  None \<Rightarrow> None
                | Some (pp', Inr out) \<Rightarrow> Some (pp', out)
                | Some (pp', Inl e) \<Rightarrow>
                    search_include fuel env
                      (pp'\<lparr>logged := logged pp' @ [LogWarning (''Error processing include '' @ include_path)]\<rparr>)
                      include_path whole dirs)))"
  by pat_completeness auto
termination process_source
  by (relation "measures
    [\<lambda>x. case x of Inl (Inl (fuel, _)) \<Rightarrow> fuel | Inl (Inr (fuel, _)) \<Rightarrow> fuel
          | Inr (Inl (fuel, _)) \<Rightarrow> fuel | Inr (Inr (fuel, _)) \<Rightarrow> fuel,
     \<lambda>x. case x of Inl (Inl _) \<Rightarrow> 3 | Inl (Inr _) \<Rightarrow> 2 | Inr (Inl _) \<Rightarrow> 1 | Inr (Inr _) \<Rightarrow> 0,
     \<lambda>x. case x of Inl (Inl _) \<Rightarrow> 0 | Inl (Inr (_, _, _, segs)) \<Rightarrow> length segs
          | Inr (Inl _) \<Rightarrow> 0 | Inr (Inr (_, _, _, _, _, dirs)) \<Rightarrow> length dirs]")
    auto

definition process_file ::
    "nat \<Rightarrow> environment \<Rightarrow> preprocessor \<Rightarrow> string \<Rightarrow> (preprocessor \<times> (error + string)) option" where
  \<comment> \<open>when \<^verbatim>\<open>open\<close> or \<^verbatim>\<open>read\<close> raises, the handler logs and executes \<^verbatim>\<open>return source\<close>
      with \<^verbatim>\<open>source\<close> never assigned\<close>
  "process_file fuel env pp file_path =
     (case file_at env file_path of
        Readable source \<Rightarrow>
          (case process_source fuel env pp source file_path of
             None \<Rightarrow> None
           | Some (pp', Inr out) \<Rightarrow> Some (pp', Inr out)
           | Some (pp', Inl e) \<Rightarrow>
               Some (pp'\<lparr>logged := logged pp' @ [LogError (''Error processing file '' @ file_path)]\<rparr>,
                     Inr source))
      | _ \<Rightarrow>
          Some (pp\<lparr>logged := logged pp @ [LogError (''Error processing file '' @ file_path)]\<rparr>,
                Inl (UnboundLocalError ''source'')))"

definition example_env :: environment where
  \<comment> \<open>the environment of the concrete examples: one header, \<^verbatim>\<open>inc/a.h\<close>\<close>
  "example_env =
     \<lparr>file_at = (\<lambda>p. if p = ''inc/a.h'' then Readable ''int a;'' else Missing),
      path_join = (\<lambda>d p. d @ ''/'' @ p),
      re_template = (\<lambda>n v. Inl (ReError v))\<rparr>"

text \<open>
  Names for the statements below: a word in the sense of \<^verbatim>\<open>\w+\<close>, and the include specs
  of the directives among some segments.
\<close>

definition plain_word :: "string \<Rightarrow> bool" where
  "plain_word w \<longleftrightarrow> w \<noteq> [] \<and> list_all is_word_char w"

fun directive_specs :: "segment list \<Rightarrow> string set" where
  "directive_specs [] = {}"
| "directive_specs (Chr c # segs) = directive_specs segs"
| "directive_specs (Directive include_path whole # segs) = insert include_path (directive_specs segs)"

text \<open>
  \<open>include_closed env dirs R\<close>: every include spec written in a file that can be read
  through the search path \<open>dirs\<close> is in \<open>R\<close>.
\<close>

definition include_closed :: "environment \<Rightarrow> string list \<Rightarrow> string set \<Rightarrow> bool" where
  "include_closed env dirs R \<longleftrightarrow>
     (\<forall>d \<in> set dirs. \<forall>spec content.
        file_at env (path_join env d spec) = Readable content \<longrightarrow>
        directive_specs (include_segments content) \<subseteq> R)"

subsection \<open>Whole-word substitution by position\<close>

text \<open>
  What one pass of macro expansion is said to do, in terms of positions of the text, to
  be compared with \<open>sub_word\<close>. \<open>boundary_at source i\<close>: exactly one of
  the characters before and at position \<open>i\<close> is a word character (a position outside
  the text holds none). \<open>whole_word_at word source i\<close>: the word stands at position
  \<open>i\<close> between two boundaries. \<open>occurrences word source start\<close> are the whole-word
  occurrences from \<open>start\<close> on, from left to right and without overlap; the search goes
  on behind an occurrence (one position further for the empty word). \<open>replace_at\<close> copies
  the text and puts the replacement in place of every occurrence.
\<close>

definition boundary_at :: "string \<Rightarrow> nat \<Rightarrow> bool" where
  "boundary_at source i \<longleftrightarrow>
     (0 < i \<and> is_word_char (source ! (i - 1))) \<noteq> (i < length source \<and> is_word_char (source ! i))"

definition whole_word_at :: "string \<Rightarrow> string \<Rightarrow> nat \<Rightarrow> bool" where
  "whole_word_at word source i \<longleftrightarrow>
     i + length word \<le> length source \<and> take (length word) (drop i source) = word \<and>
     boundary_at source i \<and> boundary_at source (i + length word)"

function occurrences :: "string \<Rightarrow> string \<Rightarrow> nat \<Rightarrow> nat list" where
  "occurrences word source start =
     (case find (whole_word_at word source) [start..<Suc (length source)] of
        None \<Rightarrow> []
      | Some i \<Rightarrow> i # occurrences word source (i + max 1 (length word)))"
  by pat_completeness auto
termination occurrences
proof (relation "measure (\<lambda>(word, source, start). Suc (length source) - start)", goal_cases)
  case (2 word source start i)
  then have "i \<in> set [start..<Suc (length source)]" by (metis find_Some_iff nth_mem)
  then have "start \<le> i \<and> i < Suc (length source)" by (simp only: set_upt atLeastLessThan_iff)
  then show ?case by auto
qed simp

fun replace_at :: "string \<Rightarrow> nat \<Rightarrow> string \<Rightarrow> nat \<Rightarrow> nat list \<Rightarrow> string" where
  "replace_at source n repl pos [] = drop pos source"
| "replace_at source n repl pos (i # ps) =
     take (i - pos) (drop pos source) @ repl @ replace_at source n repl (i + n) ps"

definition replace_whole_words :: "string \<Rightarrow> string \<Rightarrow> string \<Rightarrow> string" where
  "replace_whole_words word repl source = replace_at source (length word) repl 0 (occurrences word source 0)"

definition substitute_in_order :: "(string \<times> string) list \<Rightarrow> string \<Rightarrow> string" where
  "substitute_in_order table source = fold (\<lambda>(word, repl). replace_whole_words word repl) table source"

text \<open>
  \<open>char_before source i\<close> is the character in front of position \<open>i\<close>, which
  \<open>sub_word\<close> carries along as its argument \<open>prev\<close>.
\<close>

definition char_before :: "string \<Rightarrow> nat \<Rightarrow> char option" where
  "char_before source i = (if i = 0 then None else Some (source ! (i - 1)))"

subsection \<open>A deep chain of files\<close>




section \<open>Properties of get_dependency_order\<close>



















































section \<open>Properties of the dependency mapper\<close>

lemma dict_get_add:
  "dict_get (dict_add d k x) k' = (if k' = k then set_add x (dict_get d k) else dict_get d k')"
  unfolding dict_get_def dict_add_def by (simp add: AList.update_conv')

lemma set_set_add: "set (set_add x xs) = insert x (set xs)"
  unfolding set_add_def by auto

lemma set_dict_get_add:
  "set (dict_get (dict_add d k x) k') =
     (if k' = k then insert x (set (dict_get d k)) else set (dict_get d k'))"
  by (simp add: dict_get_add set_set_add)

lemma dependencies_add:
  "t \<in> set (dict_get (dependencies (add_file_dependency resolve a b m)) s) \<longleftrightarrow>
     t \<in> set (dict_get (dependencies m) s) \<or> (resolve a \<noteq> resolve b \<and> s = resolve a \<and> t = resolve b)"
  by (auto simp: add_file_dependency_def Let_def set_dict_get_add)

lemma reverse_dependencies_add:
  "s \<in> set (dict_get (reverse_dependencies (add_file_dependency resolve a b m)) t) \<longleftrightarrow>
     s \<in> set (dict_get (reverse_dependencies m) t) \<or> (resolve a \<noteq> resolve b \<and> s = resolve a \<and> t = resolve b)"
  by (auto simp: add_file_dependency_def Let_def set_dict_get_add)

lemma graph_invariant_add: "graph_invariant m \<Longrightarrow> graph_invariant (add_file_dependency resolve a b m)"
  unfolding graph_invariant_def dependencies_add reverse_dependencies_add by blast

lemma canonical_add: "canonical_edges resolve m \<Longrightarrow> canonical_edges resolve (add_file_dependency resolve a b m)"
  unfolding canonical_edges_def dependencies_add by blast

lemma graph_invariant_fold:
  "graph_invariant m \<Longrightarrow> graph_invariant (fold (\<lambda>d. add_file_dependency resolve x d) ds m)"
  by (induction ds arbitrary: m) (simp_all add: graph_invariant_add)

lemma canonical_fold:
  "canonical_edges resolve m \<Longrightarrow> canonical_edges resolve (fold (\<lambda>d. add_file_dependency resolve x d) ds m)"
  by (induction ds arbitrary: m) (simp_all add: canonical_add)

lemma edges_add_symbol_definition:
  "dependencies (add_symbol_definition resolve f n m) = dependencies m"
  "reverse_dependencies (add_symbol_definition resolve f n m) = reverse_dependencies m"
  by (simp_all add: add_symbol_definition_def Let_def)

lemma graph_invariant_apply: "graph_invariant m \<Longrightarrow> graph_invariant (apply_op resolve m op)"
proof (cases op)
  case (AddFileDependency s t)
  assume "graph_invariant m"
  then show ?thesis unfolding AddFileDependency apply_op.simps by (rule graph_invariant_add)
next
  case (AddSymbolDefinition f n)
  assume "graph_invariant m"
  then show ?thesis
    unfolding AddSymbolDefinition apply_op.simps graph_invariant_def edges_add_symbol_definition .
next
  case (AddSymbolReference f n)
  assume "graph_invariant m"
  then show ?thesis
    unfolding AddSymbolReference apply_op.simps add_symbol_reference_def Let_def
    by (rule graph_invariant_fold)
qed

lemma canonical_apply: "canonical_edges resolve m \<Longrightarrow> canonical_edges resolve (apply_op resolve m op)"
proof (cases op)
  case (AddFileDependency s t)
  assume "canonical_edges resolve m"
  then show ?thesis unfolding AddFileDependency apply_op.simps by (rule canonical_add)
next
  case (AddSymbolDefinition f n)
  assume "canonical_edges resolve m"
  then show ?thesis
    unfolding AddSymbolDefinition apply_op.simps canonical_edges_def edges_add_symbol_definition .
next
  case (AddSymbolReference f n)
  assume "canonical_edges resolve m"
  then show ?thesis
    unfolding AddSymbolReference apply_op.simps add_symbol_reference_def Let_def
    by (rule canonical_fold)
qed

lemma graph_invariant_foldl:
  "graph_invariant m \<Longrightarrow> graph_invariant (foldl (apply_op resolve) m ops)"
  by (induction ops arbitrary: m) (simp_all add: graph_invariant_apply)

lemma canonical_foldl:
  "canonical_edges resolve m \<Longrightarrow> canonical_edges resolve (foldl (apply_op resolve) m ops)"
  by (induction ops arbitrary: m) (simp_all add: canonical_apply)

lemma graph_invariant_new: "graph_invariant new_mapper"
  by (simp add: graph_invariant_def new_mapper_def dict_get_def)

lemma canonical_new: "canonical_edges resolve new_mapper"
  by (simp add: canonical_edges_def new_mapper_def dict_get_def)

text \<open>
  Claim C4. Every sequence of \<open>add_file_dependency\<close>, \<open>add_symbol_definition\<close> and
  \<open>add_symbol_reference\<close> calls preserves the graph invariant (a target is in the
  dependencies of a source exactly when the source is in the reverse dependencies of
  the target, and no file depends on itself); \<open>add_file_dependency a a\<close> changes
  nothing, and \<open>get_file_dependencies a\<close> never holds \<open>a\<close>, nor its canonical form.
\<close>

theorem mapper_graph_invariant:
  "(graph_invariant m \<longrightarrow> graph_invariant (foldl (apply_op resolve) m ops)) \<and>
   graph_invariant (run_ops resolve ops) \<and>
   add_file_dependency resolve a a m = m \<and>
   resolve a \<notin> set (get_file_dependencies resolve (run_ops resolve ops) a) \<and>
   ((\<forall>p. resolve (resolve p) = resolve p) \<longrightarrow>
      a \<notin> set (get_file_dependencies resolve (run_ops resolve ops) a))"
proof (intro conjI impI)
  show "graph_invariant (foldl (apply_op resolve) m ops)" if "graph_invariant m"
    using that by (rule graph_invariant_foldl)
  show g: "graph_invariant (run_ops resolve ops)"
    unfolding run_ops_def using graph_invariant_new by (rule graph_invariant_foldl)
  show "add_file_dependency resolve a a m = m"
    by (simp add: add_file_dependency_def)
  from g show n: "resolve a \<notin> set (get_file_dependencies resolve (run_ops resolve ops) a)"
    unfolding graph_invariant_def get_file_dependencies_def by blast
  show "a \<notin> set (get_file_dependencies resolve (run_ops resolve ops) a)"
    if idem: "\<forall>p. resolve (resolve p) = resolve p"
  proof
    assume in_deps: "a \<in> set (get_file_dependencies resolve (run_ops resolve ops) a)"
    have "canonical_edges resolve (run_ops resolve ops)"
      unfolding run_ops_def using canonical_new by (rule canonical_foldl)
    with in_deps have "a \<in> range resolve"
      by (auto simp: canonical_edges_def get_file_dependencies_def)
    with idem have "resolve a = a" by auto
    with in_deps n show False by simp
  qed
qed

lemma dependencies_fold:
  "t \<in> set (dict_get (dependencies (fold (\<lambda>d. add_file_dependency resolve x d) ds m)) s) \<longleftrightarrow>
     t \<in> set (dict_get (dependencies m) s) \<or>
     (s = resolve x \<and> (\<exists>d \<in> set ds. t = resolve d \<and> resolve x \<noteq> resolve d))"
  by (induction ds arbitrary: m) (auto simp: dependencies_add)

text \<open>
  Claim C5, as amended. For files \<open>f1\<close> and \<open>f2\<close> with different canonical forms
  (canonicalisation being idempotent), \<open>add_symbol_reference f2 s\<close> after
  \<open>add_symbol_definition f1 s\<close> leaves the canonical form of \<open>f1\<close> in
  \<open>get_file_dependencies f2\<close>.
\<close>

theorem symbol_reference_adds_dependency:
  assumes "\<forall>p. resolve (resolve p) = resolve p" and "resolve f1 \<noteq> resolve f2"
  shows "resolve f1 \<in> set (get_file_dependencies resolve
           (add_symbol_reference resolve f2 s (add_symbol_definition resolve f1 s m)) f2)"
proof -
  let ?m1 = "add_symbol_definition resolve f1 s m"
  have "resolve f1 \<in> set (dict_get (symbol_files ?m1) s)"
    by (simp add: add_symbol_definition_def Let_def set_dict_get_add)
  with assms show ?thesis
    unfolding get_file_dependencies_def add_symbol_reference_def Let_def dependencies_fold
    by force
qed

text \<open>
  The claim as stated, for all files, fails when both are the same file: the edge would
  be a self-edge, which \<open>add_file_dependency\<close> drops.
\<close>

theorem symbol_reference_same_file_counterexample:
  "id ''/a.c'' \<notin> set (get_file_dependencies id
       (add_symbol_reference id ''/a.c'' ''f'' (add_symbol_definition id ''/a.c'' ''f'' new_mapper))
       ''/a.c'')"
  by code_simp

theorem symbol_reference_adds_dependency_witness:
  "(\<forall>p::path. id (id p) = id p) \<and> id ''/a.c'' \<noteq> id ''/b.c'' \<and>
   id ''/a.c'' \<in> set (get_file_dependencies id
       (add_symbol_reference id ''/b.c'' ''f'' (add_symbol_definition id ''/a.c'' ''f'' new_mapper))
       ''/b.c'')"
  using symbol_reference_adds_dependency[of id "''/a.c''" "''/b.c''" "''f''" new_mapper] by simp

theorem mapper_graph_invariant_witness:
  "graph_invariant new_mapper \<and>
   graph_invariant (foldl (apply_op id) new_mapper
      [AddSymbolDefinition ''/b.c'' ''f'', AddSymbolReference ''/a.c'' ''f'', AddFileDependency ''/a.c'' ''/a.c'']) \<and>
   dependencies (run_ops id
      [AddSymbolDefinition ''/b.c'' ''f'', AddSymbolReference ''/a.c'' ''f'', AddFileDependency ''/a.c'' ''/a.c''])
     = [(''/a.c'', [''/b.c''])] \<and>
   (\<forall>p::path. id (id p) = id p) \<and>
   ''/a.c'' \<notin> set (get_file_dependencies id (run_ops id
      [AddSymbolDefinition ''/b.c'' ''f'', AddSymbolReference ''/a.c'' ''f'', AddFileDependency ''/a.c'' ''/a.c'']) ''/a.c'')"
proof -
  let ?ops = "[AddSymbolDefinition ''/b.c'' ''f'', AddSymbolReference ''/a.c'' ''f'', AddFileDependency ''/a.c'' ''/a.c'']"
  note t = mapper_graph_invariant[of new_mapper id ?ops "''/a.c''"]
  have n: "graph_invariant new_mapper" by (rule graph_invariant_new)
  have d: "dependencies (run_ops id ?ops) = [(''/a.c'', [''/b.c''])]" by code_simp
  have i: "\<forall>p::path. id (id p) = id p" by simp
  from t n i d show ?thesis by blast
qed

section \<open>Properties of the symbol table\<close>

text \<open>
  Claim C9. \<open>add_symbol\<close> with a symbol whose name is already in the table logs a
  warning and leaves the table as it was; so after two calls with the same name (on a
  table that did not have the name) \<open>get_symbol\<close> gives the symbol of the first call,
  with the first call's kind.
\<close>

theorem add_symbol_first_wins:
  "(name symbol \<in> set (map fst (symbols st)) \<longrightarrow>
      symbols (add_symbol symbol st) = symbols st \<and>
      table_log (add_symbol symbol st) = table_log st @
        [LogWarning (''Symbol '' @ name symbol @ '' already exists in table'')] \<and>
      get_symbol (add_symbol symbol st) = get_symbol st) \<and>
   (name first \<notin> set (map fst (symbols st)) \<and> name second = name first \<longrightarrow>
      get_symbol (add_symbol second (add_symbol first st)) (name first) = Some first \<and>
      map_option kind (get_symbol (add_symbol second (add_symbol first st)) (name first))
        = Some (kind first))"
proof (intro conjI impI)
  assume "name symbol \<in> set (map fst (symbols st))"
  then show "symbols (add_symbol symbol st) = symbols st"
    and "table_log (add_symbol symbol st) = table_log st @
        [LogWarning (''Symbol '' @ name symbol @ '' already exists in table'')]"
    and "get_symbol (add_symbol symbol st) = get_symbol st"
    by (simp_all add: add_symbol_def get_symbol_def fun_eq_iff)
next
  assume a: "name first \<notin> set (map fst (symbols st)) \<and> name second = name first"
  then have 1: "symbols (add_symbol first st) = AList.update (name first) first (symbols st)"
    by (simp add: add_symbol_def)
  then have "name second \<in> set (map fst (symbols (add_symbol first st)))"
    using a by (simp add: AList.dom_update)
  then have "symbols (add_symbol second (add_symbol first st)) = symbols (add_symbol first st)"
    by (simp add: add_symbol_def)
  with 1 show g: "get_symbol (add_symbol second (add_symbol first st)) (name first) = Some first"
    by (simp add: get_symbol_def AList.update_conv')
  then show "map_option kind (get_symbol (add_symbol second (add_symbol first st)) (name first))
        = Some (kind first)" by simp
qed

theorem add_symbol_first_wins_witness:
  "name \<lparr>name = ''x'', kind = ''function'', type_info = ''int'', scope = ''global'', references = {}\<rparr>
     \<in> set (map fst (symbols (add_symbol
        \<lparr>name = ''x'', kind = ''variable'', type_info = ''int'', scope = ''global'', references = {}\<rparr>
        new_symbol_table))) \<and>
   name \<lparr>name = ''x'', kind = ''variable'', type_info = ''int'', scope = ''global'', references = {}\<rparr>
     \<notin> set (map fst (symbols new_symbol_table)) \<and>
   map_option kind (get_symbol
      (add_symbol \<lparr>name = ''x'', kind = ''function'', type_info = ''int'', scope = ''global'', references = {}\<rparr>
        (add_symbol \<lparr>name = ''x'', kind = ''variable'', type_info = ''int'', scope = ''global'', references = {}\<rparr>
           new_symbol_table)) ''x'') = Some ''variable'' \<and>
   table_log
      (add_symbol \<lparr>name = ''x'', kind = ''function'', type_info = ''int'', scope = ''global'', references = {}\<rparr>
        (add_symbol \<lparr>name = ''x'', kind = ''variable'', type_info = ''int'', scope = ''global'', references = {}\<rparr>
           new_symbol_table)) = [LogWarning ''Symbol x already exists in table'']"
proof -
  let ?v = "\<lparr>name = ''x'', kind = ''variable'', type_info = ''int'', scope = ''global'', references = {}\<rparr>"
  let ?f = "\<lparr>name = ''x'', kind = ''function'', type_info = ''int'', scope = ''global'', references = {}\<rparr>"
  have 1: "name ?f \<in> set (map fst (symbols (add_symbol ?v new_symbol_table)))"
    by (simp add: add_symbol_def new_symbol_table_def)
  have 2: "name ?v \<notin> set (map fst (symbols new_symbol_table))"
    by (simp add: new_symbol_table_def)
  have 3: "table_log (add_symbol ?v new_symbol_table) = []"
    by (simp add: add_symbol_def new_symbol_table_def)
  note a = add_symbol_first_wins[where symbol = ?f and st = "add_symbol ?v new_symbol_table"
      and first = ?v and second = ?f]
  note b = add_symbol_first_wins[where symbol = ?f and st = new_symbol_table
      and first = ?v and second = ?f]
  from a 1 3 have 4: "table_log (add_symbol ?f (add_symbol ?v new_symbol_table)) =
      [LogWarning ''Symbol x already exists in table'']" by simp
  from b 2 have 5: "map_option kind (get_symbol (add_symbol ?f (add_symbol ?v new_symbol_table)) ''x'')
      = Some ''variable''" by simp
  from 1 2 4 5 show ?thesis by blast
qed

section \<open>Properties of conditional compilation\<close>

lemma loop_skipping:
  "conditionals_loop True lines =
     conditionals_loop False (drop 1 (dropWhile (\<lambda>l. \<not> begins_endif l) lines))"
  by (induction lines) (simp_all add: begins_endif_def)

lemma loop_copying:
  "conditionals_loop False lines =
     takeWhile (\<lambda>l. \<not> begins_if l) lines @
     (case dropWhile (\<lambda>l. \<not> begins_if l) lines of
        [] \<Rightarrow> [] | directive # after \<Rightarrow> conditionals_loop True after)"
  by (induction lines) (simp_all add: begins_if_def)

lemma loop_discards: "conditionals_loop False lines = discard_regions lines"
proof (induction lines rule: discard_regions.induct)
  case (1 lines)
  show ?case
  proof (cases "dropWhile (\<lambda>l. \<not> begins_if l) lines")
    case Nil
    then have tw: "takeWhile (\<lambda>l. \<not> begins_if l) lines = lines"
      by (metis append_Nil2 takeWhile_dropWhile_id)
    from loop_copying[of lines] have "conditionals_loop False lines = lines"
      unfolding Nil tw by simp
    moreover from discard_regions.simps[of lines] have "discard_regions lines = lines"
      unfolding Nil by simp
    ultimately show ?thesis by simp
  next
    case (Cons directive after)
    from loop_copying[of lines]
    have "conditionals_loop False lines =
        takeWhile (\<lambda>l. \<not> begins_if l) lines @ conditionals_loop True after"
      unfolding Cons by simp
    moreover from discard_regions.simps[of lines]
    have "discard_regions lines = takeWhile (\<lambda>l. \<not> begins_if l) lines @
        discard_regions (drop 1 (dropWhile (\<lambda>l. \<not> begins_endif l) after))"
      unfolding Cons by simp
    ultimately show ?thesis using 1[OF Cons] by (simp add: loop_skipping)
  qed
qed

text \<open>
  Claim C8. For every input, \<open>process_conditionals\<close> discards every line from a line
  beginning with \<^verbatim>\<open>#if\<close>, \<^verbatim>\<open>#ifdef\<close> or \<^verbatim>\<open>#ifndef\<close> up to and including the first
  following \<^verbatim>\<open>#endif\<close> line, whatever the condition says and however the blocks are
  nested, and passes every other line through unchanged: it computes exactly
  \<open>discard_regions\<close> on the lines of the input.
\<close>

theorem conditionals_discard_regions:
  "process_conditionals source = join_lines (discard_regions (split_lines source))"
  by (simp add: process_conditionals_def loop_discards)

theorem conditionals_discard_regions_witness:
  "process_conditionals (join_lines
       [''a'', ''#ifdef X'', ''  #if Y'', ''b'', '' #endif'', ''c'', ''#endif'', ''d''])
     = join_lines [''a'', ''c'', ''#endif'', ''d''] \<and>
   join_lines (discard_regions (split_lines (join_lines
       [''a'', ''#ifdef X'', ''  #if Y'', ''b'', '' #endif'', ''c'', ''#endif'', ''d''])))
     = join_lines [''a'', ''c'', ''#endif'', ''d'']"
proof -
  have "process_conditionals (join_lines
       [''a'', ''#ifdef X'', ''  #if Y'', ''b'', '' #endif'', ''c'', ''#endif'', ''d''])
     = join_lines [''a'', ''c'', ''#endif'', ''d'']"
    by code_simp
  then show ?thesis
    using conditionals_discard_regions[of "join_lines
       [''a'', ''#ifdef X'', ''  #if Y'', ''b'', '' #endif'', ''c'', ''#endif'', ''d'']"]
    by simp
qed

lemma startswith_append: "startswith s (p @ q) \<Longrightarrow> startswith s p"
proof -
  assume "startswith s (p @ q)"
  then have "take (length p) (take (length (p @ q)) s) = take (length p) (p @ q)"
    by (simp add: startswith_def)
  then show "startswith s p" by (simp add: startswith_def min_def)
qed

lemma if_not_endif: "begins_if l \<Longrightarrow> \<not> begins_endif l"
proof
  assume a: "begins_if l" and b: "begins_endif l"
  from b have "startswith (strip l) (''#e'' @ ''ndif'')" by (simp add: begins_endif_def)
  then have e: "startswith (strip l) ''#e''" by (rule startswith_append)
  from a have "startswith (strip l) (''#i'' @ ''f'') \<or> startswith (strip l) (''#i'' @ ''fdef'')
      \<or> startswith (strip l) (''#i'' @ ''fndef'')"
    by (simp add: begins_if_def)
  then have "startswith (strip l) ''#i''" by (elim disjE) (erule startswith_append)+
  with e show False by (simp add: startswith_def)
qed

lemma loop_no_endif:
  "\<forall>l \<in> set rest. \<not> begins_endif l \<Longrightarrow> conditionals_loop True rest = []"
  by (induction rest) (simp_all add: begins_endif_def)

lemma loop_unterminated:
  "begins_if d \<Longrightarrow> \<forall>l \<in> set rest. \<not> begins_endif l \<Longrightarrow>
     conditionals_loop skip (pre @ d # rest) = conditionals_loop skip pre"
proof (induction pre arbitrary: skip)
  case Nil
  from Nil(1) have "\<not> begins_endif d" by (rule if_not_endif)
  with Nil show ?case
    by (cases skip) (simp_all add: loop_no_endif begins_endif_def begins_if_def)
next
  case (Cons a pre)
  then show ?case by simp
qed

text \<open>
  Claim C10. When the input has a line beginning with \<^verbatim>\<open>#if\<close>, \<^verbatim>\<open>#ifdef\<close> or
  \<^verbatim>\<open>#ifndef\<close> and no \<^verbatim>\<open>#endif\<close> line after it, \<open>process_conditionals\<close> returns what
  the lines in front of that directive alone produce: every line from the directive to
  the end of the input is discarded. The function is total and has no log and no error
  result.
\<close>

theorem conditionals_unterminated:
  assumes "split_lines source = pre @ directive # rest"
    and "begins_if directive"
    and "\<forall>l \<in> set rest. \<not> begins_endif l"
  shows "process_conditionals source = join_lines (conditionals_loop False pre)"
  using assms by (simp add: process_conditionals_def loop_unterminated)

theorem conditionals_unterminated_witness:
  "split_lines (join_lines [''a'', ''#ifdef X'', ''b'', ''c'']) = [''a''] @ ''#ifdef X'' # [''b'', ''c''] \<and>
   begins_if ''#ifdef X'' \<and> \<not> begins_endif ''b'' \<and> \<not> begins_endif ''c'' \<and>
   process_conditionals (join_lines [''a'', ''#ifdef X'', ''b'', ''c'']) = ''a''"
proof -
  have 0: "split_lines (join_lines [''a'', ''#ifdef X'', ''b'', ''c'']) = [''a''] @ ''#ifdef X'' # [''b'', ''c'']"
    by code_simp
  have 1: "begins_if ''#ifdef X''" by code_simp
  have 2: "\<forall>l \<in> set [''b'', ''c'']. \<not> begins_endif l" by code_simp
  have 4: "join_lines (conditionals_loop False [''a'']) = ''a''" by code_simp
  from conditionals_unterminated[OF 0 1 2]
  have "process_conditionals (join_lines [''a'', ''#ifdef X'', ''b'', ''c'']) = ''a''"
    unfolding 4 .
  with 0 1 2 show ?thesis by simp
qed

section \<open>Properties of macro expansion\<close>

declare sub_word.simps [simp del]

lemma startswith_self: "startswith w w"
  by (simp add: startswith_def)

lemma startswith_Nil: "startswith [] w \<longleftrightarrow> w = []"
  by (auto simp: startswith_def)

lemma sub_word_end: "word \<noteq> [] \<Longrightarrow> sub_word word repl prev [] = []"
  by (subst sub_word.simps) (simp add: startswith_Nil)

lemma sub_word_inside:
  "word \<noteq> [] \<Longrightarrow> is_word_char p \<Longrightarrow> list_all is_word_char source \<Longrightarrow>
     sub_word word repl (Some p) source = source"
proof (induction source arbitrary: p)
  case Nil
  then show ?case by (simp add: sub_word_end)
next
  case (Cons c cs)
  then have "\<not> word_boundary (Some p) (c # cs)" by (simp add: word_boundary_def)
  with Cons show ?case by (subst sub_word.simps) simp
qed

lemma sub_word_whole:
  assumes "plain_word word"
  shows "sub_word word repl None word = repl"
proof -
  from assms obtain c cs where w: "word = c # cs" and c: "is_word_char c"
    by (cases word) (auto simp: plain_word_def)
  from assms have l: "is_word_char (last word)"
    by (auto simp: plain_word_def list_all_iff)
  have 1: "word_boundary None word" using w c by (simp add: word_boundary_def)
  have 2: "word_boundary (Some (last word)) []"
    using l by (simp add: word_boundary_def)
  from assms have ne: "word \<noteq> []" by (simp add: plain_word_def)
  show ?thesis
    by (subst sub_word.simps) (simp add: ne 1 2 startswith_self sub_word_end)
qed

lemma sub_word_other:
  assumes "plain_word word" "plain_word source" "source \<noteq> word"
  shows "sub_word word repl None source = source"
proof -
  from assms(2) obtain c cs where s: "source = c # cs" and c: "is_word_char c"
    and cs: "list_all is_word_char cs"
    by (cases source) (auto simp: plain_word_def)
  from assms(1) have ne: "word \<noteq> []" by (simp add: plain_word_def)
  have "\<not> (startswith source word \<and> word_boundary (Some (last word)) (drop (length word) source))"
  proof
    assume a: "startswith source word \<and> word_boundary (Some (last word)) (drop (length word) source)"
    then have t: "take (length word) source = word" by (simp add: startswith_def)
    have "source = take (length word) source @ drop (length word) source" by simp
    with t assms(3) have d: "drop (length word) source \<noteq> []" by (metis append_Nil2)
    then obtain x xs where dx: "drop (length word) source = x # xs" by (cases "drop (length word) source") auto
    then have "x \<in> set source" by (metis in_set_dropD list.set_intros(1))
    with assms(2) have "is_word_char x" by (auto simp: plain_word_def list_all_iff)
    moreover from assms(1) have "is_word_char (last word)" by (auto simp: plain_word_def list_all_iff)
    ultimately have "\<not> word_boundary (Some (last word)) (drop (length word) source)"
      by (simp add: word_boundary_def dx)
    with a show False by simp
  qed
  then show ?thesis
    unfolding s using ne c cs
    by (subst sub_word.simps) (auto simp: sub_word_inside)
qed

lemma plain_word_no_backslash: "plain_word w \<Longrightarrow> CHR 0x5C \<notin> set w"
proof
  assume "plain_word w" and "CHR 0x5C \<in> set w"
  then have "is_word_char CHR 0x5C" by (auto simp: plain_word_def list_all_iff)
  then show False by (simp add: is_word_char_def)
qed

lemma expand_macros_append:
  "expand_macros env (ms @ ms') source =
     (case expand_macros env ms source of Inl e \<Rightarrow> Inl e | Inr s \<Rightarrow> expand_macros env ms' s)"
  by (induction ms arbitrary: source) (auto split: sum.splits)

lemma re_sub_macro_plain:
  "CHR 0x5C \<notin> set v \<Longrightarrow> re_sub_macro env n v source = Inr (sub_word n v None source)"
  by (simp add: re_sub_macro_def)

declare occurrences.simps [simp del]

lemma word_boundary_at:
  "i \<le> length source \<Longrightarrow> word_boundary (char_before source i) (drop i source) = boundary_at source i"
proof (cases "i < length source")
  case True
  then have "drop i source = source ! i # drop (Suc i) source" by (simp add: Cons_nth_drop_Suc)
  with True show ?thesis by (simp add: word_boundary_def boundary_at_def char_before_def)
next
  case False
  assume "i \<le> length source"
  with False have "drop i source = []" by simp
  with False show ?thesis by (simp add: word_boundary_def boundary_at_def char_before_def)
qed

lemma last_take_drop:
  assumes "take (length word) (drop i source) = word" and "word \<noteq> []"
  shows "i + length word \<le> length source \<and> last word = source ! (i + length word - 1)"
proof -
  from assms(2) have p: "0 < length word" by simp
  from arg_cong[OF assms(1), of length]
  have "min (length word) (length source - i) = length word" by simp
  with p have l: "i + length word \<le> length source" by arith
  have "last word = word ! (length word - 1)" using assms(2) by (simp add: last_conv_nth)
  also have "\<dots> = take (length word) (drop i source) ! (length word - 1)" by (simp add: assms(1))
  also have "\<dots> = source ! (i + (length word - 1))" using p l by simp
  finally show ?thesis using l p by simp
qed

lemma match_whole_word:
  assumes "word \<noteq> []" and "i \<le> length source"
  shows "(word_boundary (char_before source i) (drop i source) \<and> startswith (drop i source) word \<and>
          word_boundary (Some (last word)) (drop (length word) (drop i source)))
         \<longleftrightarrow> whole_word_at word source i"
proof (cases "take (length word) (drop i source) = word")
  case False
  then show ?thesis by (simp add: startswith_def whole_word_at_def)
next
  case True
  from last_take_drop[OF True assms(1)] have l: "i + length word \<le> length source"
    and e: "last word = source ! (i + length word - 1)" by simp_all
  from assms(1) have "Some (last word) = char_before source (i + length word)"
    by (simp add: char_before_def e)
  moreover have "drop (length word) (drop i source) = drop (i + length word) source"
    by (simp add: add.commute)
  ultimately have "word_boundary (Some (last word)) (drop (length word) (drop i source))
      = boundary_at source (i + length word)"
    using word_boundary_at[OF l] by simp
  with True l word_boundary_at[OF assms(2)] show ?thesis
    by (simp add: startswith_def whole_word_at_def)
qed

lemma occurrences_here:
  "whole_word_at word source i \<Longrightarrow> i \<le> length source \<Longrightarrow>
     occurrences word source i = i # occurrences word source (i + max 1 (length word))"
  by (subst occurrences.simps) (simp add: upt_conv_Cons del: upt_Suc)

lemma occurrences_skip:
  "\<not> whole_word_at word source i \<Longrightarrow> i \<le> length source \<Longrightarrow>
     occurrences word source i = occurrences word source (Suc i)"
  by (subst occurrences.simps, subst (2) occurrences.simps) (simp add: upt_conv_Cons del: upt_Suc)

lemma occurrences_ge: "p \<in> set (occurrences word source start) \<Longrightarrow> start \<le> p"
proof (induction word source start rule: occurrences.induct)
  case (1 word source start)
  show ?case
  proof (cases "find (whole_word_at word source) [start..<Suc (length source)]")
    case None
    with 1(2) show ?thesis by (subst (asm) occurrences.simps) simp
  next
    case (Some i)
    then have "i \<in> set [start..<Suc (length source)]" by (metis find_Some_iff nth_mem)
    then have i: "start \<le> i" by (simp only: set_upt atLeastLessThan_iff)
    from 1(2) Some have "p = i \<or> p \<in> set (occurrences word source (i + max 1 (length word)))"
      by (subst (asm) occurrences.simps) simp
    with 1(1)[OF Some] i show ?thesis by auto
  qed
qed

lemma replace_at_step:
  assumes "i < length source" and "\<forall>p \<in> set ps. i < p"
  shows "replace_at source n repl i ps = source ! i # replace_at source n repl (Suc i) ps"
proof (cases ps)
  case Nil
  with assms(1) show ?thesis by (simp add: Cons_nth_drop_Suc)
next
  case (Cons p ps')
  with assms(2) have "i < p" by simp
  then have "p - i = Suc (p - Suc i)" by simp
  moreover from assms(1) have "drop i source = source ! i # drop (Suc i) source"
    by (simp add: Cons_nth_drop_Suc)
  ultimately show ?thesis by (simp add: Cons)
qed

lemma sub_word_positions:
  "i \<le> length source \<Longrightarrow>
     sub_word word repl (char_before source i) (drop i source) =
     replace_at source (length word) repl i (occurrences word source i)"
proof (induction "length source - i" arbitrary: i rule: less_induct)
  case less
  let ?n = "length word"
  let ?tail = "case drop i source of [] \<Rightarrow> [] | c # cs \<Rightarrow> c # sub_word word repl (Some c) cs"
  have tail: "?tail = replace_at source ?n repl i (occurrences word source (Suc i))"
  proof (cases "i < length source")
    case True
    then have d: "drop i source = source ! i # drop (Suc i) source" by (simp add: Cons_nth_drop_Suc)
    have c: "Some (source ! i) = char_before source (Suc i)" by (simp add: char_before_def)
    from True have "sub_word word repl (char_before source (Suc i)) (drop (Suc i) source) =
        replace_at source ?n repl (Suc i) (occurrences word source (Suc i))"
      by (intro less.hyps) simp_all
    moreover have "\<forall>p \<in> set (occurrences word source (Suc i)). i < p"
    proof
      fix p assume "p \<in> set (occurrences word source (Suc i))"
      from occurrences_ge[OF this] show "i < p" by simp
    qed
    ultimately show ?thesis using True by (simp add: d c replace_at_step)
  next
    case False
    with less.prems have i: "i = length source" by simp
    have "occurrences word source (Suc (length source)) = []"
      by (subst occurrences.simps) simp
    then show ?thesis by (simp add: i)
  qed
  show ?case
  proof (cases "word = []")
    case True
    have w: "whole_word_at [] source i \<longleftrightarrow> boundary_at source i"
      using less.prems by (simp add: whole_word_at_def)
    show ?thesis
    proof (cases "boundary_at source i")
      case b: True
      with w True have "occurrences word source i = i # occurrences word source (Suc i)"
        using occurrences_here[of word source i] less.prems by simp
      with b tail True show ?thesis
        by (subst sub_word.simps) (simp add: word_boundary_at[OF less.prems])
    next
      case b: False
      with w True have "occurrences word source i = occurrences word source (Suc i)"
        using occurrences_skip[of word source i] less.prems by simp
      with b tail True show ?thesis
        by (subst sub_word.simps) (simp add: word_boundary_at[OF less.prems])
    qed
  next
    case ne: False
    note m = match_whole_word[OF ne less.prems]
    show ?thesis
    proof (cases "whole_word_at word source i")
      case True
      then have l: "i + ?n \<le> length source" by (simp add: whole_word_at_def)
      from True have t: "take ?n (drop i source) = word" by (simp add: whole_word_at_def)
      from last_take_drop[OF t ne] ne have c: "Some (last word) = char_before source (i + ?n)"
        by (simp add: char_before_def)
      have d: "drop ?n (drop i source) = drop (i + ?n) source" by (simp add: add.commute)
      from ne have "0 < ?n" by simp
      with l have "length source - (i + ?n) < length source - i" by arith
      from less.hyps[OF this l]
      have "sub_word word repl (char_before source (i + ?n)) (drop (i + ?n) source) =
          replace_at source ?n repl (i + ?n) (occurrences word source (i + ?n))" .
      moreover from ne have "max 1 ?n = ?n" by (cases word) simp_all
      with True have "occurrences word source i = i # occurrences word source (i + ?n)"
        using occurrences_here[of word source i] less.prems by simp
      moreover from True m have "word_boundary (char_before source i) (drop i source) \<and>
          startswith (drop i source) word \<and>
          word_boundary (Some (last word)) (drop ?n (drop i source))" by simp
      ultimately show ?thesis using ne
        by (subst sub_word.simps) (simp add: c d del: drop_drop)
    next
      case False
      then have "occurrences word source i = occurrences word source (Suc i)"
        using occurrences_skip[of word source i] less.prems by simp
      moreover from False m have nc: "\<not> (word_boundary (char_before source i) (drop i source) \<and>
          startswith (drop i source) word \<and>
          word_boundary (Some (last word)) (drop ?n (drop i source)))" by simp
      have "sub_word word repl (char_before source i) (drop i source) = ?tail"
        by (subst sub_word.simps) (simp only: ne nc if_False)
      ultimately show ?thesis using tail by simp
    qed
  qed
qed

lemma sub_word_replace: "sub_word word repl None source = replace_whole_words word repl source"
  using sub_word_positions[of 0 source word repl]
  by (simp add: char_before_def replace_whole_words_def)

lemma expand_macros_substitute:
  "\<forall>(word, repl) \<in> set table. CHR 0x5C \<notin> set repl \<Longrightarrow>
     expand_macros env table source = Inr (substitute_in_order table source)"
proof (induction table arbitrary: source)
  case Nil
  show ?case by (simp add: substitute_in_order_def)
next
  case (Cons m table)
  obtain word repl where m: "m = (word, repl)" by (cases m)
  from Cons.prems have b: "CHR 0x5C \<notin> set repl" and r: "\<forall>(word, repl) \<in> set table. CHR 0x5C \<notin> set repl"
    by (simp_all add: m)
  from Cons.IH[OF r] have "expand_macros env table (replace_whole_words word repl source) =
      Inr (substitute_in_order table (replace_whole_words word repl source))" .
  with b show ?case
    by (simp add: m re_sub_macro_plain sub_word_replace substitute_in_order_def)
qed

text \<open>a text without an occurrence, and a text with exactly one\<close>

lemma whole_word_positions:
  "whole_word_at word source i \<longleftrightarrow>
     i \<in> set (filter (whole_word_at word source) [0..<Suc (length source)])"
proof -
  have "whole_word_at word source i \<Longrightarrow> i < Suc (length source)"
    by (simp add: whole_word_at_def)
  then show ?thesis by (simp only: set_filter set_upt) auto
qed

lemma replace_none:
  assumes "\<forall>i. \<not> whole_word_at word source i"
  shows "replace_whole_words word repl source = source"
proof -
  from assms have "find (whole_word_at word source) [0..<Suc (length source)] = None"
    by (simp add: find_None_iff del: upt_Suc)
  then have "occurrences word source 0 = []" by (subst occurrences.simps) simp
  then show ?thesis by (simp add: replace_whole_words_def)
qed

lemma replace_one:
  assumes "\<forall>i. whole_word_at word (pre @ word @ post) i = (i = length pre)"
  shows "replace_whole_words word repl (pre @ word @ post) = pre @ repl @ post"
proof -
  let ?s = "pre @ word @ post"
  let ?p = "length pre"
  let ?xs = "[0..<Suc (length ?s)]"
  have l: "?p < length ?xs" by simp
  have n: "\<And>j. j < length ?xs \<Longrightarrow> ?xs ! j = j" by (simp only: length_upt nth_upt)
  have "find (whole_word_at word ?s) ?xs = Some ?p"
    unfolding find_Some_iff
  proof (intro exI[of _ ?p] conjI allI impI)
    show "?p < length ?xs" by (rule l)
    show "whole_word_at word ?s (?xs ! ?p)" using assms n[OF l] by simp
    show "?p = ?xs ! ?p" using n[OF l] by simp
    fix j assume j: "j < ?p"
    with l have "j < length ?xs" by simp
    from n[OF this] j assms show "\<not> whole_word_at word ?s (?xs ! j)" by simp
  qed
  then have 1: "occurrences word ?s 0 = ?p # occurrences word ?s (?p + max 1 (length word))"
    by (subst occurrences.simps) simp
  have "find (whole_word_at word ?s) [?p + max 1 (length word)..<Suc (length ?s)] = None"
    unfolding find_None_iff using assms by (simp only: set_upt atLeastLessThan_iff) auto
  then have 2: "occurrences word ?s (?p + max 1 (length word)) = []"
    by (subst occurrences.simps) simp
  show ?thesis unfolding replace_whole_words_def 1 2 by simp
qed

lemma replace_whole_words_whole:
  "plain_word word \<Longrightarrow> replace_whole_words word repl word = repl"
  using sub_word_whole[of word repl] by (simp add: sub_word_replace)

text \<open>
  Claim C6, as amended. For every macro table whose replacement texts hold no backslash,
  and every input text, macro expansion returns the text in which the macros have been
  substituted one after the other in the order of their definition, each by one pass
  that replaces the whole-word occurrences of the name, found from left to right without
  overlap, and does not scan what it has put in. A text in which the name nowhere stands
  as a whole word is left as it is, and a text in which it stands so at one place only
  has the replacement text at that place and is the same elsewhere. Expanding a table is
  expanding its front part and then its back part on the result; a macro that mentions
  itself is expanded once; and the pass of a macro that is defined later runs over the
  replacement texts of the earlier ones, so a macro name mentioned there is expanded
  further when that macro is defined later, and is left alone when it was defined
  earlier.
\<close>

theorem macros_in_definition_order:
  "((\<forall>(word, repl) \<in> set table. CHR 0x5C \<notin> set repl) \<longrightarrow>
      expand_macros env table source = Inr (substitute_in_order table source)) \<and>
   (CHR 0x5C \<notin> set repl \<and> (\<forall>i. \<not> whole_word_at word source i) \<longrightarrow>
      expand_macros env [(word, repl)] source = Inr source) \<and>
   (CHR 0x5C \<notin> set repl \<and> (\<forall>i. whole_word_at word (pre @ word @ post) i = (i = length pre)) \<longrightarrow>
      expand_macros env [(word, repl)] (pre @ word @ post) = Inr (pre @ repl @ post)) \<and>
   expand_macros env (ms @ ms') source =
      (case expand_macros env ms source of Inl e \<Rightarrow> Inl e | Inr s \<Rightarrow> expand_macros env ms' s) \<and>
   (plain_word a \<and> plain_word b \<and> a \<noteq> b \<and> CHR 0x5C \<notin> set v \<and> CHR 0x5C \<notin> set c \<longrightarrow>
      expand_macros env [(a, v)] a = Inr v \<and>
      expand_macros env [(a, v), (b, c)] a = Inr (replace_whole_words b c v) \<and>
      expand_macros env [(a, b), (b, c)] a = Inr c \<and>
      expand_macros env [(b, c), (a, v)] a = Inr v)"
proof (intro conjI impI)
  assume "\<forall>(word, repl) \<in> set table. CHR 0x5C \<notin> set repl"
  then show "expand_macros env table source = Inr (substitute_in_order table source)"
    by (rule expand_macros_substitute)
next
  assume "CHR 0x5C \<notin> set repl \<and> (\<forall>i. \<not> whole_word_at word source i)"
  then show "expand_macros env [(word, repl)] source = Inr source"
    by (simp add: re_sub_macro_plain sub_word_replace replace_none)
next
  assume "CHR 0x5C \<notin> set repl \<and> (\<forall>i. whole_word_at word (pre @ word @ post) i = (i = length pre))"
  then show "expand_macros env [(word, repl)] (pre @ word @ post) = Inr (pre @ repl @ post)"
    by (simp add: re_sub_macro_plain sub_word_replace replace_one)
next
  show "expand_macros env (ms @ ms') source =
      (case expand_macros env ms source of Inl e \<Rightarrow> Inl e | Inr s \<Rightarrow> expand_macros env ms' s)"
    by (rule expand_macros_append)
next
  assume h: "plain_word a \<and> plain_word b \<and> a \<noteq> b \<and> CHR 0x5C \<notin> set v \<and> CHR 0x5C \<notin> set c"
  then have a: "plain_word a" and b: "plain_word b" and ab: "a \<noteq> b"
    and v: "CHR 0x5C \<notin> set v" and c: "CHR 0x5C \<notin> set c" by simp_all
  from b have bb: "CHR 0x5C \<notin> set b" by (rule plain_word_no_backslash)
  show "expand_macros env [(a, v)] a = Inr v"
    using a v by (simp add: re_sub_macro_plain sub_word_whole)
  show "expand_macros env [(a, v), (b, c)] a = Inr (replace_whole_words b c v)"
    using a v c by (simp add: re_sub_macro_plain sub_word_replace replace_whole_words_whole)
  show "expand_macros env [(a, b), (b, c)] a = Inr c"
    using a b bb c by (simp add: re_sub_macro_plain sub_word_whole)
  show "expand_macros env [(b, c), (a, v)] a = Inr v"
    using a b ab v c by (simp add: re_sub_macro_plain sub_word_whole sub_word_other)
qed

text \<open>
  The claim as stated says that a macro name mentioned in a replacement text is not
  expanded unless it stood in the text before the substitution. With \<^verbatim>\<open>A\<close> defined as
  \<^verbatim>\<open>B\<close> and then \<^verbatim>\<open>B\<close> as \<^verbatim>\<open>C\<close>, the text \<^verbatim>\<open>A\<close> holds no \<^verbatim>\<open>B\<close>, and yet the \<^verbatim>\<open>B\<close>
  that the first pass puts in is expanded by the second.
\<close>

theorem macro_chain_counterexample:
  "expand_macros example_env [(''A'', ''B''), (''B'', ''C'')] ''A'' = Inr ''C''"
  by code_simp

theorem macros_in_definition_order_witness:
  "CHR 0x5C \<notin> set ''64'' \<and> CHR 0x5C \<notin> set ''B + MAXLEN'' \<and> CHR 0x5C \<notin> set ''C'' \<and>
   substitute_in_order [(''MAXLEN'', ''64''), (''A'', ''B + MAXLEN''), (''B'', ''C'')]
       ''int buf[MAXLEN]; int b[MAXLENGTH]; A = A_B;''
     = ''int buf[64]; int b[MAXLENGTH]; C + MAXLEN = A_B;'' \<and>
   expand_macros example_env [(''MAXLEN'', ''64''), (''A'', ''B + MAXLEN''), (''B'', ''C'')]
       ''int buf[MAXLEN]; int b[MAXLENGTH]; A = A_B;''
     = Inr ''int buf[64]; int b[MAXLENGTH]; C + MAXLEN = A_B;'' \<and>
   (\<forall>i. \<not> whole_word_at ''MAXLEN'' ''int b[MAXLENGTH];'' i) \<and>
   expand_macros example_env [(''MAXLEN'', ''64'')] ''int b[MAXLENGTH];'' = Inr ''int b[MAXLENGTH];'' \<and>
   (\<forall>i. whole_word_at ''MAXLEN'' (''int buf['' @ ''MAXLEN'' @ ''];'') i = (i = length ''int buf['')) \<and>
   expand_macros example_env [(''MAXLEN'', ''64'')] (''int buf['' @ ''MAXLEN'' @ ''];'')
     = Inr (''int buf['' @ ''64'' @ ''];'') \<and>
   plain_word ''A'' \<and> plain_word ''B'' \<and> ''A'' \<noteq> ''B'' \<and> CHR 0x5C \<notin> set ''A + A'' \<and>
   expand_macros example_env [(''A'', ''A + A'')] ''A'' = Inr ''A + A'' \<and>
   expand_macros example_env [(''A'', ''B''), (''B'', ''C'')] ''A'' = Inr ''C'' \<and>
   expand_macros example_env [(''B'', ''C''), (''A'', ''A + A'')] ''A'' = Inr ''A + A''"
proof -
  let ?table = "[(''MAXLEN'', ''64''), (''A'', ''B + MAXLEN''), (''B'', ''C'')]"
  let ?source = "''int buf[MAXLEN]; int b[MAXLENGTH]; A = A_B;''"
  have t: "\<forall>(word, repl) \<in> set ?table. CHR 0x5C \<notin> set repl" by simp
  have s: "substitute_in_order ?table ?source = ''int buf[64]; int b[MAXLENGTH]; C + MAXLEN = A_B;''"
    by code_simp
  from macros_in_definition_order[where table = ?table and env = example_env and source = ?source,
      THEN conjunct1] t
  have e: "expand_macros example_env ?table ?source = Inr (substitute_in_order ?table ?source)"
    by (rule mp)
  have 1: "plain_word ''A''" and 2: "plain_word ''B''" by code_simp+
  have 3: "''A'' \<noteq> ''B''" and 4: "CHR 0x5C \<notin> set ''A + A''" and 5: "CHR 0x5C \<notin> set ''C''"
    and 6: "CHR 0x5C \<notin> set ''64''" and 7: "CHR 0x5C \<notin> set ''B + MAXLEN''"
    by simp_all
  have "filter (whole_word_at ''MAXLEN'' ''int b[MAXLENGTH];'') [0..<Suc (length ''int b[MAXLENGTH];'')] = []"
    by code_simp
  then have n: "\<forall>i. \<not> whole_word_at ''MAXLEN'' ''int b[MAXLENGTH];'' i"
    by (subst whole_word_positions) simp
  from macros_in_definition_order[where word = "''MAXLEN''" and repl = "''64''"
      and source = "''int b[MAXLENGTH];''" and env = example_env,
      THEN conjunct2, THEN conjunct1] 6 n
  have u: "expand_macros example_env [(''MAXLEN'', ''64'')] ''int b[MAXLENGTH];'' = Inr ''int b[MAXLENGTH];''"
    by blast
  have "filter (whole_word_at ''MAXLEN'' (''int buf['' @ ''MAXLEN'' @ ''];''))
      [0..<Suc (length (''int buf['' @ ''MAXLEN'' @ ''];''))] = [length ''int buf['']"
    by code_simp
  then have o: "\<forall>i. whole_word_at ''MAXLEN'' (''int buf['' @ ''MAXLEN'' @ ''];'') i = (i = length ''int buf['')"
    by (subst whole_word_positions) simp
  from macros_in_definition_order[where word = "''MAXLEN''" and repl = "''64''"
      and pre = "''int buf[''" and post = "''];''" and env = example_env,
      THEN conjunct2, THEN conjunct2, THEN conjunct1] 6 o
  have r: "expand_macros example_env [(''MAXLEN'', ''64'')] (''int buf['' @ ''MAXLEN'' @ ''];'')
      = Inr (''int buf['' @ ''64'' @ ''];'')"
    by blast
  from macros_in_definition_order[where a = "''A''" and b = "''B''" and v = "''A + A''" and c = "''C''"
      and env = example_env, THEN conjunct2, THEN conjunct2, THEN conjunct2, THEN conjunct2] 1 2 3 4 5
  have c: "expand_macros example_env [(''A'', ''A + A'')] ''A'' = Inr ''A + A'' \<and>
      expand_macros example_env [(''A'', ''B''), (''B'', ''C'')] ''A'' = Inr ''C'' \<and>
      expand_macros example_env [(''B'', ''C''), (''A'', ''A + A'')] ''A'' = Inr ''A + A''"
    by blast
  from e s 1 2 3 4 5 6 7 n u o r c show ?thesis by (intro conjI) simp_all
qed

section \<open>Properties of include expansion\<close>

lemmas pp_induct = process_source_sub_includes_replace_include_search_include.induct

lemma processed_grows:
  "process_source fuel env pp source cur = Some (pp1, res) \<Longrightarrow>
     processed_includes pp \<subseteq> processed_includes pp1"
  "sub_includes fuel env pp segs = Some (pp2, out) \<Longrightarrow>
     processed_includes pp \<subseteq> processed_includes pp2"
  "replace_include fuel env pp include_path whole = Some (pp3, r) \<Longrightarrow>
     processed_includes pp \<subseteq> processed_includes pp3"
  "search_include fuel env pp include_path whole dirs = Some (pp4, r') \<Longrightarrow>
     processed_includes pp \<subseteq> processed_includes pp4"
proof (induction fuel env pp source cur and fuel env pp segs and fuel env pp include_path whole
    and fuel env pp include_path whole dirs
    arbitrary: pp1 res and pp2 out and pp3 r and pp4 r' rule: pp_induct)
  case (1 fuel env pp source current_file)
  from 1(2) obtain s1 where a: "sub_includes fuel env pp (include_segments source) = Some (pp1, s1)"
    by (auto split: option.splits sum.splits)
  from 1(1)[OF a] show ?case .
next
  case (2 fuel env pp)
  then show ?case by simp
next
  case (3 fuel env pp c segs)
  from 3(2) obtain o1 where a: "sub_includes fuel env pp segs = Some (pp2, o1)"
    by (auto split: option.splits)
  from 3(1)[OF a] show ?case .
next
  case (4 fuel env pp include_path whole segs)
  from 4(3) obtain ppa ra o1 where
    a: "replace_include fuel env pp include_path whole = Some (ppa, ra)" and
    b: "sub_includes fuel env ppa segs = Some (pp2, o1)"
    by (auto split: option.splits)
  from 4(1)[OF a] 4(2)[OF a refl b] show ?case by blast
next
  case (5 fuel env pp include_path whole)
  show ?case
  proof (cases "include_path \<in> processed_includes pp")
    case True
    with 5(2) show ?thesis by simp
  next
    case False
    with 5(2) have "search_include fuel env
        (pp\<lparr>processed_includes := insert include_path (processed_includes pp)\<rparr>)
        include_path whole (include_paths pp) = Some (pp3, r)" by simp
    from 5(1)[OF False this] show ?thesis by auto
  qed
next
  case (6 fuel env pp include_path whole)
  then show ?case by auto
next
  case (7 fuel env pp include_path whole include_dir dirs)
  let ?full = "path_join env include_dir include_path"
  show ?case
  proof (cases "file_at env ?full")
    case Missing
    with 7(5) have "search_include fuel env pp include_path whole dirs = Some (pp4, r')" by simp
    from 7(1)[OF Missing this] show ?thesis .
  next
    case Unreadable
    with 7(5) have "search_include fuel env
        (pp\<lparr>logged := logged pp @ [LogWarning (''Error processing include '' @ include_path)]\<rparr>)
        include_path whole dirs = Some (pp4, r')" by simp
    from 7(2)[OF Unreadable this] show ?thesis by simp
  next
    case (Readable content)
    with 7(5) obtain k where k: "fuel = Suc k" by (cases fuel) auto
    from 7(5) Readable k obtain ppa ra where
      a: "process_source k env pp content ?full = Some (ppa, ra)"
      by (auto split: option.splits)
    note g = 7(3)[OF Readable k a]
    show ?thesis
    proof (cases ra)
      case (Inr t)
      with 7(5) Readable k a have "pp4 = ppa" by simp
      with g show ?thesis by simp
    next
      case (Inl e)
      with 7(5) Readable k a have s: "search_include fuel env
          (ppa\<lparr>logged := logged ppa @ [LogWarning (''Error processing include '' @ include_path)]\<rparr>)
          include_path whole dirs = Some (pp4, r')" by simp
      from 7(4)[OF Readable k a refl Inl s] g show ?thesis by auto
    qed
  qed
qed

lemma replace_include_repeat:
  "include_path \<in> processed_includes pp \<Longrightarrow> replace_include fuel env pp include_path whole = Some (pp, [])"
  by simp

lemma replace_include_marks:
  assumes "replace_include fuel env pp include_path whole = Some (pp', r)"
  shows "include_path \<in> processed_includes pp'"
proof (cases "include_path \<in> processed_includes pp")
  case True
  with assms show ?thesis by simp
next
  case False
  with assms have "search_include fuel env
      (pp\<lparr>processed_includes := insert include_path (processed_includes pp)\<rparr>)
      include_path whole (include_paths pp) = Some (pp', r)" by simp
  from processed_grows(4)[OF this] show ?thesis by simp
qed

lemma sub_includes_repeat:
  "include_path \<in> processed_includes pp \<union> directive_specs segs \<Longrightarrow>
     sub_includes fuel env pp (segs @ Directive include_path whole # rest)
       = sub_includes fuel env pp (segs @ rest)"
proof (induction segs arbitrary: pp)
  case Nil
  then have "replace_include fuel env pp include_path whole = Some (pp, [])" by simp
  then show ?case by (cases "sub_includes fuel env pp rest") auto
next
  case (Cons seg segs)
  show ?case
  proof (cases seg)
    case (Chr c)
    with Cons show ?thesis by simp
  next
    case (Directive s w)
    show ?thesis
    proof (cases "replace_include fuel env pp s w")
      case None
      with Directive show ?thesis by simp
    next
      case (Some p)
      obtain pp1 r1 where p: "p = (pp1, r1)" by (cases p)
      from Some p have a: "replace_include fuel env pp s w = Some (pp1, r1)" by simp
      from processed_grows(3)[OF a] replace_include_marks[OF a] Cons.prems Directive
      have "include_path \<in> processed_includes pp1 \<union> directive_specs segs" by auto
      from Cons.IH[OF this] a Directive show ?thesis by simp
    qed
  qed
qed

lemma reset_is_new: "reset pp = new_preprocessor (logged pp)"
  by (simp add: reset_def new_preprocessor_def)

lemma replace_include_found:
  assumes "include_path \<notin> processed_includes pp"
    and "include_paths pp = include_dir # dirs"
    and "file_at env (path_join env include_dir include_path) = Readable content"
    and "process_source fuel env (pp\<lparr>processed_includes := insert include_path (processed_includes pp)\<rparr>)
           content (path_join env include_dir include_path) = Some (pp', Inr out)"
  shows "replace_include (Suc fuel) env pp include_path whole = Some (pp', out)"
  using assms by simp

lemma include_paths_kept:
  "process_source fuel env pp source cur = Some (pp1, res) \<Longrightarrow> include_paths pp1 = include_paths pp"
  "sub_includes fuel env pp segs = Some (pp2, out) \<Longrightarrow> include_paths pp2 = include_paths pp"
  "replace_include fuel env pp include_path whole = Some (pp3, r) \<Longrightarrow> include_paths pp3 = include_paths pp"
  "search_include fuel env pp include_path whole dirs = Some (pp4, r') \<Longrightarrow>
     include_paths pp4 = include_paths pp"
proof (induction fuel env pp source cur and fuel env pp segs and fuel env pp include_path whole
    and fuel env pp include_path whole dirs
    arbitrary: pp1 res and pp2 out and pp3 r and pp4 r' rule: pp_induct)
  case (1 fuel env pp source current_file)
  from 1(2) obtain s1 where a: "sub_includes fuel env pp (include_segments source) = Some (pp1, s1)"
    by (auto split: option.splits sum.splits)
  from 1(1)[OF a] show ?case .
next
  case (2 fuel env pp)
  then show ?case by simp
next
  case (3 fuel env pp c segs)
  from 3(2) obtain o1 where a: "sub_includes fuel env pp segs = Some (pp2, o1)"
    by (auto split: option.splits)
  from 3(1)[OF a] show ?case .
next
  case (4 fuel env pp include_path whole segs)
  from 4(3) obtain ppa ra o1 where
    a: "replace_include fuel env pp include_path whole = Some (ppa, ra)" and
    b: "sub_includes fuel env ppa segs = Some (pp2, o1)"
    by (auto split: option.splits)
  from 4(1)[OF a] 4(2)[OF a refl b] show ?case by simp
next
  case (5 fuel env pp include_path whole)
  show ?case
  proof (cases "include_path \<in> processed_includes pp")
    case True
    with 5(2) show ?thesis by simp
  next
    case False
    with 5(2) have "search_include fuel env
        (pp\<lparr>processed_includes := insert include_path (processed_includes pp)\<rparr>)
        include_path whole (include_paths pp) = Some (pp3, r)" by simp
    from 5(1)[OF False this] show ?thesis by simp
  qed
next
  case (6 fuel env pp include_path whole)
  then show ?case by auto
next
  case (7 fuel env pp include_path whole include_dir dirs)
  let ?full = "path_join env include_dir include_path"
  show ?case
  proof (cases "file_at env ?full")
    case Missing
    with 7(5) have "search_include fuel env pp include_path whole dirs = Some (pp4, r')" by simp
    from 7(1)[OF Missing this] show ?thesis .
  next
    case Unreadable
    with 7(5) have "search_include fuel env
        (pp\<lparr>logged := logged pp @ [LogWarning (''Error processing include '' @ include_path)]\<rparr>)
        include_path whole dirs = Some (pp4, r')" by simp
    from 7(2)[OF Unreadable this] show ?thesis by simp
  next
    case (Readable content)
    with 7(5) obtain k where k: "fuel = Suc k" by (cases fuel) auto
    from 7(5) Readable k obtain ppa ra where
      a: "process_source k env pp content ?full = Some (ppa, ra)"
      by (auto split: option.splits)
    note g = 7(3)[OF Readable k a]
    show ?thesis
    proof (cases ra)
      case (Inr t)
      with 7(5) Readable k a have "pp4 = ppa" by simp
      with g show ?thesis by simp
    next
      case (Inl e)
      with 7(5) Readable k a have s: "search_include fuel env
          (ppa\<lparr>logged := logged ppa @ [LogWarning (''Error processing include '' @ include_path)]\<rparr>)
          include_path whole dirs = Some (pp4, r')" by simp
      from 7(4)[OF Readable k a refl Inl s] g show ?thesis by simp
    qed
  qed
qed

lemma card_remaining_mono:
  "finite R \<Longrightarrow> A \<subseteq> B \<Longrightarrow> card (R - B) \<le> card (R - A)"
  by (intro card_mono) auto

lemma card_remaining_insert:
  "finite R \<Longrightarrow> x \<in> R \<Longrightarrow> x \<notin> A \<Longrightarrow> card (R - insert x A) < card (R - A)"
  by (intro psubset_card_mono) auto

lemma enough_fuel:
  "finite R \<Longrightarrow> include_closed env (include_paths pp) R \<Longrightarrow>
     directive_specs (include_segments source) \<subseteq> R \<Longrightarrow>
     card (R - processed_includes pp) \<le> fuel \<Longrightarrow>
     \<exists>pp' res. process_source fuel env pp source cur = Some (pp', res)"
  "finite R \<Longrightarrow> include_closed env (include_paths pp) R \<Longrightarrow>
     directive_specs segs \<subseteq> R \<Longrightarrow>
     card (R - processed_includes pp) \<le> fuel \<Longrightarrow>
     \<exists>pp' out. sub_includes fuel env pp segs = Some (pp', out)"
  "finite R \<Longrightarrow> include_closed env (include_paths pp) R \<Longrightarrow>
     include_path \<in> R \<Longrightarrow>
     card (R - processed_includes pp) \<le> fuel \<Longrightarrow>
     \<exists>pp' r. replace_include fuel env pp include_path whole = Some (pp', r)"
  "finite R \<Longrightarrow> include_closed env (include_paths pp) R \<Longrightarrow>
     set dirs \<subseteq> set (include_paths pp) \<Longrightarrow>
     card (R - processed_includes pp) < fuel \<Longrightarrow>
     \<exists>pp' r. search_include fuel env pp include_path whole dirs = Some (pp', r)"
proof (induction fuel env pp source cur and fuel env pp segs and fuel env pp include_path whole
    and fuel env pp include_path whole dirs rule: pp_induct)
  case (1 fuel env pp source current_file)
  from 1(1)[OF 1(2) 1(3) 1(4) 1(5)] obtain pp' out where
    "sub_includes fuel env pp (include_segments source) = Some (pp', out)" by blast
  then show ?case by (auto split: sum.splits)
next
  case (2 fuel env pp)
  show ?case by simp
next
  case (3 fuel env pp c segs)
  from 3(4) have "directive_specs segs \<subseteq> R" by simp
  from 3(1)[OF 3(2) 3(3) this 3(5)] show ?case by auto
next
  case (4 fuel env pp include_path whole segs)
  from 4(5) have i: "include_path \<in> R" and s: "directive_specs segs \<subseteq> R" by simp_all
  from 4(1)[OF 4(3) 4(4) i 4(6)] obtain ppa ra where
    a: "replace_include fuel env pp include_path whole = Some (ppa, ra)" by blast
  from include_paths_kept(3)[OF a] 4(4) have c: "include_closed env (include_paths ppa) R" by simp
  from processed_grows(3)[OF a] 4(3) have "card (R - processed_includes ppa) \<le> card (R - processed_includes pp)"
    by (intro card_remaining_mono)
  with 4(6) have "card (R - processed_includes ppa) \<le> fuel" by simp
  from 4(2)[OF a refl 4(3) c s this] a show ?case by auto
next
  case (5 fuel env pp include_path whole)
  show ?case
  proof (cases "include_path \<in> processed_includes pp")
    case True
    then show ?thesis by simp
  next
    case False
    let ?pp1 = "pp\<lparr>processed_includes := insert include_path (processed_includes pp)\<rparr>"
    have "processed_includes ?pp1 = insert include_path (processed_includes pp)" by simp
    with card_remaining_insert[OF 5(2) 5(4) False]
    have "card (R - processed_includes ?pp1) < card (R - processed_includes pp)"
      by (simp only:)
    with 5(5) have l: "card (R - processed_includes ?pp1) < fuel" by simp
    have c: "include_closed env (include_paths ?pp1) R" using 5(3) by simp
    have d: "set (include_paths pp) \<subseteq> set (include_paths ?pp1)" by simp
    from 5(1)[OF False 5(2) c d l] False show ?thesis by simp
  qed
next
  case (6 fuel env pp include_path whole)
  show ?case by simp
next
  case (7 fuel env pp include_path whole include_dir dirs)
  let ?full = "path_join env include_dir include_path"
  let ?w = "LogWarning (''Error processing include '' @ include_path)"
  from 7(7) have ds: "set dirs \<subseteq> set (include_paths pp)" and d: "include_dir \<in> set (include_paths pp)"
    by simp_all
  show ?case
  proof (cases "file_at env ?full")
    case Missing
    from 7(1)[OF Missing 7(5) 7(6) ds 7(8)] Missing show ?thesis by simp
  next
    case Unreadable
    have "include_closed env (include_paths (pp\<lparr>logged := logged pp @ [?w]\<rparr>)) R"
      using 7(6) by simp
    from 7(2)[OF Unreadable 7(5) this] ds 7(8) Unreadable show ?thesis by simp
  next
    case (Readable content)
    from 7(8) obtain k where k: "fuel = Suc k" by (cases fuel) auto
    from 7(6) d Readable have cs: "directive_specs (include_segments content) \<subseteq> R"
      unfolding include_closed_def by blast
    from 7(8) k have le: "card (R - processed_includes pp) \<le> k" by simp
    from 7(3)[OF Readable k 7(5) 7(6) cs le] obtain ppa ra where
      a: "process_source k env pp content ?full = Some (ppa, ra)" by blast
    show ?thesis
    proof (cases ra)
      case (Inr t)
      with Readable k a show ?thesis by simp
    next
      case (Inl e)
      let ?ppb = "ppa\<lparr>logged := logged ppa @ [?w]\<rparr>"
      from include_paths_kept(1)[OF a] have p: "include_paths ?ppb = include_paths pp" by simp
      from p 7(6) have c: "include_closed env (include_paths ?ppb) R" by simp
      from p ds have s: "set dirs \<subseteq> set (include_paths ?ppb)" by simp
      from processed_grows(1)[OF a] 7(5)
      have "card (R - processed_includes ppa) \<le> card (R - processed_includes pp)"
        by (intro card_remaining_mono)
      with 7(8) have l: "card (R - processed_includes ?ppb) < fuel" by simp
      from 7(4)[OF Readable k a refl Inl 7(5) c s l] Readable k a Inl show ?thesis by simp
    qed
  qed
qed

lemma example_closed: "include_closed example_env [''inc''] {''a.h''}"
proof -
  have "directive_specs (include_segments ''int a;'') = {}" by code_simp
  then show ?thesis
    by (auto simp: include_closed_def example_env_def split: if_splits)
qed

text \<open>
  Claim C7. The callback returns the empty string for an include spec that is already in
  \<open>processed_includes\<close>; a spec is in the set once the callback has returned for it,
  and nothing in the call tree of \<open>process_source\<close> ever takes a spec out; so within
  one substitution a directive whose spec occurred before contributes nothing. \<open>reset\<close>
  gives the state of a newly constructed instance, and there, with the search path set
  again, the callback replaces the directive by the processed content of the file it
  finds. The pipeline returns whenever the fuel is at least the number of include specs
  of the files in reach that are not yet processed.
\<close>

theorem include_expanded_once:
  "(include_path \<in> processed_includes pp \<longrightarrow>
      replace_include fuel env pp include_path whole = Some (pp, [])) \<and>
   (replace_include fuel env pp include_path whole = Some (pp', r) \<longrightarrow>
      include_path \<in> processed_includes pp') \<and>
   (process_source fuel env pp source current_file = Some (pp', res) \<longrightarrow>
      processed_includes pp \<subseteq> processed_includes pp') \<and>
   (include_path \<in> processed_includes pp \<union> directive_specs segs \<longrightarrow>
      sub_includes fuel env pp (segs @ Directive include_path whole # rest)
        = sub_includes fuel env pp (segs @ rest)) \<and>
   reset pp = new_preprocessor (logged pp) \<and>
   (include_path \<notin> processed_includes pp \<and> include_paths pp = include_dir # dirs \<and>
    file_at env (path_join env include_dir include_path) = Readable content \<and>
    process_source fuel env (pp\<lparr>processed_includes := insert include_path (processed_includes pp)\<rparr>)
       content (path_join env include_dir include_path) = Some (pp', Inr out) \<longrightarrow>
      replace_include (Suc fuel) env pp include_path whole = Some (pp', out)) \<and>
   (finite R \<and> include_closed env (include_paths pp) R \<and>
    directive_specs (include_segments source) \<subseteq> R \<and>
    card (R - processed_includes pp) \<le> fuel \<longrightarrow>
      (\<exists>pp'' res'. process_source fuel env pp source current_file = Some (pp'', res')))"
proof (intro conjI impI)
  assume "include_path \<in> processed_includes pp"
  then show "replace_include fuel env pp include_path whole = Some (pp, [])"
    by (rule replace_include_repeat)
next
  assume "replace_include fuel env pp include_path whole = Some (pp', r)"
  then show "include_path \<in> processed_includes pp'" by (rule replace_include_marks)
next
  assume "process_source fuel env pp source current_file = Some (pp', res)"
  then show "processed_includes pp \<subseteq> processed_includes pp'" by (rule processed_grows(1))
next
  assume "include_path \<in> processed_includes pp \<union> directive_specs segs"
  then show "sub_includes fuel env pp (segs @ Directive include_path whole # rest)
        = sub_includes fuel env pp (segs @ rest)" by (rule sub_includes_repeat)
next
  show "reset pp = new_preprocessor (logged pp)" by (rule reset_is_new)
next
  assume a: "include_path \<notin> processed_includes pp \<and> include_paths pp = include_dir # dirs \<and>
    file_at env (path_join env include_dir include_path) = Readable content \<and>
    process_source fuel env (pp\<lparr>processed_includes := insert include_path (processed_includes pp)\<rparr>)
       content (path_join env include_dir include_path) = Some (pp', Inr out)"
  show "replace_include (Suc fuel) env pp include_path whole = Some (pp', out)"
    by (rule replace_include_found) (use a in blast)+
next
  assume a: "finite R \<and> include_closed env (include_paths pp) R \<and>
    directive_specs (include_segments source) \<subseteq> R \<and>
    card (R - processed_includes pp) \<le> fuel"
  show "\<exists>pp'' res'. process_source fuel env pp source current_file = Some (pp'', res')"
    by (rule enough_fuel(1)[of R]) (use a in blast)+
qed

theorem include_expanded_once_witness:
  "replace_include 1 example_env
      \<lparr>macros = [], include_paths = [''inc''], processed_includes = {''a.h''}, logged = []\<rparr>
      ''a.h'' ''#include <a.h>''
     = Some (\<lparr>macros = [], include_paths = [''inc''], processed_includes = {''a.h''}, logged = []\<rparr>, []) \<and>
   replace_include 1 example_env
      (add_include_path ''inc'' (reset
         \<lparr>macros = [], include_paths = [''inc''], processed_includes = {''a.h''}, logged = []\<rparr>))
      ''a.h'' ''#include <a.h>''
     = Some (\<lparr>macros = [], include_paths = [''inc''], processed_includes = {''a.h''}, logged = []\<rparr>,
             ''int a;'') \<and>
   process_source 1 example_env (add_include_path ''inc'' (new_preprocessor []))
      (join_lines [''#include <a.h>'', ''#include <a.h>'']) ''main.c''
     = Some (\<lparr>macros = [], include_paths = [''inc''], processed_includes = {''a.h''}, logged = []\<rparr>,
             Inr (join_lines [''int a;'', []])) \<and>
   process_source 1 example_env
      (add_include_path ''inc'' (reset
         \<lparr>macros = [], include_paths = [''inc''], processed_includes = {''a.h''}, logged = []\<rparr>))
      (join_lines [''#include <a.h>'', ''#include <a.h>'']) ''main.c''
     = Some (\<lparr>macros = [], include_paths = [''inc''], processed_includes = {''a.h''}, logged = []\<rparr>,
             Inr (join_lines [''int a;'', []])) \<and>
   include_closed example_env
      (include_paths (add_include_path ''inc'' (new_preprocessor []))) {''a.h''} \<and>
   (\<exists>pp'' res'. process_source 1 example_env (add_include_path ''inc'' (new_preprocessor []))
      (join_lines [''#include <a.h>'', ''#include <a.h>'']) ''main.c'' = Some (pp'', res'))"
proof -
  let ?after = "\<lparr>macros = [], include_paths = [''inc''], processed_includes = {''a.h''}, logged = []\<rparr>"
  let ?again = "add_include_path ''inc'' (reset ?after)"
  have m: "''a.h'' \<in> processed_includes ?after" by simp
  from include_expanded_once[where pp = ?after and include_path = "''a.h''" and fuel = 1
      and env = example_env and whole = "''#include <a.h>''", THEN conjunct1] m
  have 1: "replace_include 1 example_env ?after ''a.h'' ''#include <a.h>'' = Some (?after, [])"
    by (rule mp)
  have n: "''a.h'' \<notin> processed_includes ?again" by code_simp
  have p: "include_paths ?again = ''inc'' # []" by code_simp
  have f: "file_at example_env (path_join example_env ''inc'' ''a.h'') = Readable ''int a;''"
    by code_simp
  have s: "process_source 0 example_env
      (?again\<lparr>processed_includes := insert ''a.h'' (processed_includes ?again)\<rparr>)
      ''int a;'' (path_join example_env ''inc'' ''a.h'') = Some (?after, Inr ''int a;'')"
    by code_simp
  from include_expanded_once[where pp = ?again and include_path = "''a.h''" and fuel = 0
      and env = example_env and whole = "''#include <a.h>''" and include_dir = "''inc''"
      and dirs = "[]" and content = "''int a;''" and pp' = ?after and out = "''int a;''",
      THEN conjunct2, THEN conjunct2, THEN conjunct2, THEN conjunct2, THEN conjunct2,
      THEN conjunct1] n p f s
  have 2: "replace_include 1 example_env ?again ''a.h'' ''#include <a.h>'' = Some (?after, ''int a;'')"
    by simp
  have 3: "process_source 1 example_env (add_include_path ''inc'' (new_preprocessor []))
      (join_lines [''#include <a.h>'', ''#include <a.h>'']) ''main.c''
     = Some (?after, Inr (join_lines [''int a;'', []]))"
    by code_simp
  have 4: "process_source 1 example_env ?again
      (join_lines [''#include <a.h>'', ''#include <a.h>'']) ''main.c''
     = Some (?after, Inr (join_lines [''int a;'', []]))"
    by code_simp
  have c: "include_closed example_env
      (include_paths (add_include_path ''inc'' (new_preprocessor []))) {''a.h''}"
    using example_closed by (simp add: add_include_path_def new_preprocessor_def)
  have d: "directive_specs (include_segments (join_lines [''#include <a.h>'', ''#include <a.h>'']))
      \<subseteq> {''a.h''}" by code_simp
  have e: "card ({''a.h''} - processed_includes (add_include_path ''inc'' (new_preprocessor []))) \<le> 1"
    by code_simp
  from include_expanded_once[where pp = "add_include_path ''inc'' (new_preprocessor [])"
      and env = example_env and fuel = 1 and R = "{''a.h''}"
      and source = "join_lines [''#include <a.h>'', ''#include <a.h>'']"
      and current_file = "''main.c''",
      THEN conjunct2, THEN conjunct2, THEN conjunct2, THEN conjunct2, THEN conjunct2,
      THEN conjunct2] c d e
  have 5: "\<exists>pp'' res'. process_source 1 example_env (add_include_path ''inc'' (new_preprocessor []))
      (join_lines [''#include <a.h>'', ''#include <a.h>'']) ''main.c'' = Some (pp'', res')"
    by simp
  show ?thesis by (intro conjI) (rule 1 2 3 4 c 5)+
qed

section \<open>Reading a file that cannot be read\<close>

lemma process_file_unreadable:
  "file_at env file_path = Missing \<or> file_at env file_path = Unreadable \<Longrightarrow>
     process_file fuel env pp file_path =
       Some (pp\<lparr>logged := logged pp @ [LogError (''Error processing file '' @ file_path)]\<rparr>,
             Inl (UnboundLocalError ''source''))"
  by (auto simp: process_file_def)

text \<open>
  Claim C1 says that \<open>process_file\<close> on a path that cannot be read logs the error and
  returns the unprocessed source without raising. The handler does log, but its
  \<^verbatim>\<open>return source\<close> reads a variable that was never assigned: the call raises
  \<^verbatim>\<open>UnboundLocalError\<close>. Evaluated for a file that does not exist:
\<close>

theorem process_file_missing_raises:
  "process_file 0 example_env (new_preprocessor []) ''missing.c''
     = Some (\<lparr>macros = [], include_paths = [], processed_includes = {},
               logged = [LogError ''Error processing file missing.c'']\<rparr>,
             Inl (UnboundLocalError ''source''))"
  by code_simp

end
